theory Spec2Isabelle
  imports Main "HOL-Library.Sublist"
begin

section \<open>The crawler of \<^verbatim>\<open>scripts/create_knowledge_base.py\<close>\<close>

text \<open>
  The module fetches a site's pages (from its sitemap, or by following links), extracts
  their text, optionally translates it, and returns a list of documents. Its functions
  talk to the network and to third-party libraries. The libraries are parameters of the
  model (an \<open>env\<close>); the network and the translation service are an explicit world
  \<open>'w\<close> that every call takes and returns, so that two requests for one URL may
  answer differently. Every \<^verbatim>\<open>requests.get\<close> the code issues is appended to a trace.
  Output of \<^verbatim>\<open>print\<close> is not modelled.
\<close>

subsection \<open>Data\<close>

text \<open>The exceptions that leave the functions modelled here.\<close>

datatype py_error = IndexError | ValueError | TypeError | LookupError | OtherException

text \<open>
  What \<^verbatim>\<open>requests.get\<close> gives: a \<^verbatim>\<open>RequestException\<close> (no response: connection
  error, timeout, malformed URL), or a response with its status code and its body.
\<close>

datatype http_result = RequestException | Response nat string

text \<open>
  What \<^verbatim>\<open>ET.fromstring\<close> and the search for \<^verbatim>\<open>ns:url/ns:loc\<close> give:
  \<^verbatim>\<open>ET.ParseError\<close>; another exception of the parser (\<^verbatim>\<open>LookupError\<close> on an
  unknown declared encoding, \<^verbatim>\<open>ValueError\<close> on an unsupported one); or the list of
  the \<^verbatim>\<open>loc.text\<close> values, where the text of an empty element is \<^verbatim>\<open>None\<close>.
\<close>

datatype xml_result = ParseError | XmlRaises py_error | Locs "string option list"

text \<open>
  \<^verbatim>\<open>Document(text=..., extra_info={...})\<close>: the text and the metadata dictionary,
  as an association list.
\<close>

record document =
  doc_text :: string
  extra_info :: "(string \<times> string) list"

definition Document :: "string \<Rightarrow> string \<Rightarrow> document" where
  "Document page_text u = \<lparr>doc_text = page_text, extra_info = [(''url'', u)]\<rparr>"

definition doc_url :: "document \<Rightarrow> string option" where
  "doc_url d = map_of (extra_info d) ''url''"

text \<open>The translation client is an opaque object.\<close>

datatype client = Client

text \<open>
  One entry per \<^verbatim>\<open>requests.get\<close>, tagged with the call site: the sitemap
  request of \<^verbatim>\<open>fetch_sitemap_urls\<close>, the content request of \<^verbatim>\<open>process_url\<close>,
  the second request of \<^verbatim>\<open>crawl_and_scrape\<close> that harvests links.
\<close>

datatype request = SitemapGet string | ContentGet string | LinksGet string

text \<open>
  The libraries and services the module calls.
  \<^item> \<open>http_get u w\<close>: \<^verbatim>\<open>requests.get(u)\<close>, redirects followed by the library.
  \<^item> \<open>urlparse_netloc u\<close>: \<^verbatim>\<open>urlparse(u).netloc\<close>; \<open>None\<close> is the
    \<^verbatim>\<open>ValueError\<close> that \<^verbatim>\<open>urlparse\<close> raises on a URL it cannot parse.
  \<^item> \<open>urljoin b u\<close>: \<^verbatim>\<open>urljoin(b, u)\<close>, which parses both arguments and
    raises \<^verbatim>\<open>ValueError\<close> as \<^verbatim>\<open>urlparse\<close> does.
  \<^item> \<open>soup_get_text c\<close>, \<open>soup_hrefs c\<close>: the text of the parsed page and the
    \<^verbatim>\<open>href\<close> values of its anchors, in document order.
  \<^item> \<open>sitemap_locs c\<close>: \<^verbatim>\<open>ET.fromstring(c)\<close> and the texts of the
    \<^verbatim>\<open>ns:url/ns:loc\<close> elements, in document order.
  \<^item> \<open>translate_Client w\<close>: \<^verbatim>\<open>translate.Client()\<close>; \<open>None\<close> is any exception.
  \<^item> \<open>client_translate c text lang w\<close>: \<^verbatim>\<open>c.translate(text, target_language=lang)["translatedText"]\<close>;
    \<open>None\<close> is any exception.
  \<^item> \<open>pdf_load_data file w\<close>: \<^verbatim>\<open>UnstructuredReader().load_data(file=...)\<close>;
    \<open>None\<close> is any exception.
\<close>

record 'w env =
  http_get :: "string \<Rightarrow> 'w \<Rightarrow> http_result \<times> 'w"
  urlparse_netloc :: "string \<Rightarrow> string option"
  urljoin :: "string \<Rightarrow> string \<Rightarrow> string option"
  soup_get_text :: "string \<Rightarrow> string"
  soup_hrefs :: "string \<Rightarrow> string list"
  sitemap_locs :: "string \<Rightarrow> xml_result"
  translate_Client :: "'w \<Rightarrow> client option \<times> 'w"
  client_translate :: "client \<Rightarrow> string \<Rightarrow> string \<Rightarrow> 'w \<Rightarrow> string option \<times> 'w"
  pdf_load_data :: "string \<Rightarrow> 'w \<Rightarrow> document list option \<times> 'w"

text \<open>
  What outlives a call: the world, the module-level \<^verbatim>\<open>translate_client\<close>, and the
  trace of requests.
\<close>

record 'w glob =
  world :: 'w
  translate_client :: "client option"
  trace :: "request list"

text \<open>
  The local variables of \<^verbatim>\<open>crawl_and_scrape\<close>. The queue starts as the list the
  function is given, which may hold \<^verbatim>\<open>None\<close> where a sitemap has an empty
  \<^verbatim>\<open>loc\<close>; a URL is added to \<open>visited\<close> only after the substring tests, which
  \<^verbatim>\<open>None\<close> does not pass.
\<close>

record crawl_locals =
  visited :: "string set"
  documents :: "document list"
  queue :: "string option list"

text \<open>
  The fields of \<^verbatim>\<open>args\<close> that \<^verbatim>\<open>load_documents_from_sources\<close> reads; the
  URLs and file names are the strings of the command line.
\<close>

record args =
  args_urls :: "string list"
  args_pdfs :: "string list"
  args_recursive :: bool
  args_translate_to :: "string option"

subsection \<open>Configuration\<close>

definition IGNORE_PATTERNS :: "string list" where
  "IGNORE_PATTERNS =
     [''/login'', ''/signup'', ''/edit'', ''cdn-cgi'', ''?'', ''#'',
      ''.pdf'', ''.zip'', ''.jpg'', ''.png'']"

text \<open>
  \<^verbatim>\<open>any(pattern in current_url for pattern in IGNORE_PATTERNS)\<close>; Python's
  \<^verbatim>\<open>in\<close> on strings is \<^const>\<open>sublist\<close>.
\<close>

definition ignored :: "string \<Rightarrow> bool" where
  "ignored current_url = list_ex (\<lambda>pattern. sublist pattern current_url) IGNORE_PATTERNS"

subsection \<open>\<^verbatim>\<open>requests.get\<close> and \<^verbatim>\<open>raise_for_status\<close>\<close>

text \<open>
  \<^verbatim>\<open>response.raise_for_status()\<close> raises \<^verbatim>\<open>HTTPError\<close>, a
  \<^verbatim>\<open>RequestException\<close>, exactly for the status codes 400 to 599.
\<close>

definition raise_for_status :: "nat \<Rightarrow> bool" where
  "raise_for_status status \<longleftrightarrow> 400 \<le> status \<and> status < 600"

text \<open>
  The pair of calls \<^verbatim>\<open>requests.get(u)\<close>, \<^verbatim>\<open>response.raise_for_status()\<close> that
  the three call sites share: \<open>None\<close> is a \<^verbatim>\<open>RequestException\<close> from either
  call, \<open>Some c\<close> is \<^verbatim>\<open>response.content\<close>.
\<close>

definition requests_get :: "'w env \<Rightarrow> string \<Rightarrow> 'w \<Rightarrow> string option \<times> 'w" where
  "requests_get env u w =
     (case http_get env u w of
        (RequestException, w1) \<Rightarrow> (None, w1)
      | (Response status content, w1) \<Rightarrow>
          (if raise_for_status status then None else Some content, w1))"

subsection \<open>\<^verbatim>\<open>fetch_sitemap_urls\<close>\<close>

text \<open>
  \<^verbatim>\<open>urljoin\<close> is called before the \<^verbatim>\<open>try\<close>. The handler catches
  \<^verbatim>\<open>RequestException\<close> and \<^verbatim>\<open>ET.ParseError\<close>; any other exception of the
  parser leaves the function.
\<close>

definition fetch_sitemap_urls ::
  "'w env \<Rightarrow> string \<Rightarrow> 'w glob \<Rightarrow> (py_error + string option list) \<times> 'w glob" where
  "fetch_sitemap_urls env base_url g =
     (case urljoin env base_url ''sitemap.xml'' of
        None \<Rightarrow> (Inl ValueError, g)
      | Some sitemap_url \<Rightarrow>
          (case requests_get env sitemap_url (world g) of
             (response, w) \<Rightarrow>
               let g1 = g\<lparr>world := w, trace := trace g @ [SitemapGet sitemap_url]\<rparr> in
               (case response of
                  None \<Rightarrow> (Inr [], g1)
                | Some content \<Rightarrow>
                    (case sitemap_locs env content of
                       ParseError \<Rightarrow> (Inr [], g1)
                     | XmlRaises e \<Rightarrow> (Inl e, g1)
                     | Locs urls \<Rightarrow> if urls \<noteq> [] then (Inr urls, g1) else (Inr [], g1)))))"

subsection \<open>\<^verbatim>\<open>translate_text\<close>\<close>

text \<open>The second \<^verbatim>\<open>try\<close> block: the call on an initialised client.\<close>

definition translate_call ::
  "'w env \<Rightarrow> client \<Rightarrow> string \<Rightarrow> string \<Rightarrow> 'w glob \<Rightarrow> string \<times> 'w glob" where
  "translate_call env c page_text target_language g =
     (case client_translate env c page_text target_language (world g) of
        (None, w) \<Rightarrow> (page_text, g\<lparr>world := w\<rparr>)
      | (Some translated, w) \<Rightarrow> (translated, g\<lparr>world := w\<rparr>))"

definition translate_text ::
  "'w env \<Rightarrow> string \<Rightarrow> string \<Rightarrow> 'w glob \<Rightarrow> string \<times> 'w glob" where
  "translate_text env page_text target_language g =
     (case translate_client g of
        None \<Rightarrow>
          (case translate_Client env (world g) of
             (None, w) \<Rightarrow> (page_text, g\<lparr>world := w\<rparr>)
           | (Some c, w) \<Rightarrow>
               translate_call env c page_text target_language
                 (g\<lparr>world := w, translate_client := Some c\<rparr>))
      | Some c \<Rightarrow> translate_call env c page_text target_language g)"

subsection \<open>\<^verbatim>\<open>process_url\<close>\<close>

text \<open>\<^verbatim>\<open>if translate_to:\<close> holds for a string that is neither \<^verbatim>\<open>None\<close> nor empty.\<close>

definition process_url ::
  "'w env \<Rightarrow> string \<Rightarrow> string option \<Rightarrow> 'w glob \<Rightarrow> document option \<times> 'w glob" where
  "process_url env u translate_to g =
     (case requests_get env u (world g) of
        (response, w) \<Rightarrow>
          let g1 = g\<lparr>world := w, trace := trace g @ [ContentGet u]\<rparr> in
          (case response of
             None \<Rightarrow> (None, g1)
           | Some content \<Rightarrow>
               let page_text = soup_get_text env content in
               (case translate_to of
                  None \<Rightarrow> (Some (Document page_text u), g1)
                | Some lang \<Rightarrow>
                    if lang \<noteq> [] then
                      (case translate_text env page_text lang g1 of
                         (translated, g2) \<Rightarrow> (Some (Document translated u), g2))
                    else (Some (Document page_text u), g1))))"

subsection \<open>\<^verbatim>\<open>crawl_and_scrape\<close>\<close>

text \<open>
  The \<^verbatim>\<open>for link in soup.find_all("a", href=True)\<close> loop: every resolved link that
  is not in \<open>visited\<close> is appended to the queue. \<^verbatim>\<open>urljoin\<close> is called outside any
  handler for \<^verbatim>\<open>ValueError\<close>.
\<close>

fun enqueue_links ::
  "'w env \<Rightarrow> string \<Rightarrow> string set \<Rightarrow> string list \<Rightarrow> string option list
     \<Rightarrow> py_error + string option list" where
  "enqueue_links env current_url vis [] q = Inr q"
| "enqueue_links env current_url vis (href # hrefs) q =
     (case urljoin env current_url href of
        None \<Rightarrow> Inl ValueError
      | Some absolute_link \<Rightarrow>
          enqueue_links env current_url vis hrefs
            (if absolute_link \<notin> vis then q @ [Some absolute_link] else q))"

text \<open>
  One iteration of the \<^verbatim>\<open>while queue:\<close> loop, after
  \<^verbatim>\<open>current_url = queue.pop(0)\<close> has given a string. A \<^verbatim>\<open>Document\<close> object is truthy, so
  \<^verbatim>\<open>if doc:\<close> tests that \<^verbatim>\<open>process_url\<close> did not return \<^verbatim>\<open>None\<close>.
\<close>

definition crawl_body ::
  "'w env \<Rightarrow> string \<Rightarrow> bool \<Rightarrow> string option \<Rightarrow> string \<Rightarrow> crawl_locals \<Rightarrow> 'w glob
     \<Rightarrow> (py_error + crawl_locals) \<times> 'w glob" where
  "crawl_body env base_domain recursive translate_to current_url l g =
     (if current_url \<in> visited l \<or> ignored current_url then (Inr l, g)
      else
        (case urlparse_netloc env current_url of
           None \<Rightarrow> (Inl ValueError, g)
         | Some domain \<Rightarrow>
             if domain \<noteq> base_domain then (Inr l, g)
             else
               let l1 = l\<lparr>visited := insert current_url (visited l)\<rparr> in
               (case process_url env current_url translate_to g of
                  (doc, g1) \<Rightarrow>
                    let l2 = (case doc of
                                None \<Rightarrow> l1
                              | Some d \<Rightarrow> l1\<lparr>documents := documents l1 @ [d]\<rparr>) in
                    if recursive then
                      (case requests_get env current_url (world g1) of
                         (response, w) \<Rightarrow>
                           let g2 = g1\<lparr>world := w, trace := trace g1 @ [LinksGet current_url]\<rparr> in
                           (case response of
                              None \<Rightarrow> (Inr l2, g2)
                            | Some content \<Rightarrow>
                                (case enqueue_links env current_url (visited l2)
                                        (soup_hrefs env content) (queue l2) of
                                   Inl e \<Rightarrow> (Inl e, g2)
                                 | Inr q \<Rightarrow> (Inr (l2\<lparr>queue := q\<rparr>), g2))))
                    else (Inr l2, g1))))"

text \<open>
  The loop. It has no bound of its own, so the model is a partial function: \<open>None\<close>
  is a run that never leaves the loop. An exception ends the run with the error and the
  global state reached; a normal exit returns \<^verbatim>\<open>documents\<close>. When the dequeued
  element is \<^verbatim>\<open>None\<close>, it is not in \<open>visited\<close> and the first
  \<^verbatim>\<open>pattern in current_url\<close> raises \<^verbatim>\<open>TypeError\<close>.
\<close>

partial_function (option) crawl_loop ::
  "'w env \<Rightarrow> string \<Rightarrow> bool \<Rightarrow> string option \<Rightarrow> crawl_locals \<Rightarrow> 'w glob
     \<Rightarrow> ((py_error + document list) \<times> 'w glob) option" where
  "crawl_loop env base_domain recursive translate_to l g =
     (case queue l of
        [] \<Rightarrow> Some (Inr (documents l), g)
      | None # rest \<Rightarrow> Some (Inl TypeError, g)
      | Some current_url # rest \<Rightarrow>
          (case crawl_body env base_domain recursive translate_to current_url
                  (l\<lparr>queue := rest\<rparr>) g of
             (Inl e, g1) \<Rightarrow> Some (Inl e, g1)
           | (Inr l1, g1) \<Rightarrow> crawl_loop env base_domain recursive translate_to l1 g1))"

declare crawl_loop.simps [code]

text \<open>
  \<^verbatim>\<open>urls[0]\<close> raises \<^verbatim>\<open>IndexError\<close> on the empty list, and
  \<^verbatim>\<open>urlparse\<close> may raise on the first URL. When the first element is
  \<^verbatim>\<open>None\<close>, \<^verbatim>\<open>urlparse(None)\<close> raises nothing (it answers with an empty
  bytes netloc); the loop then dequeues this \<^verbatim>\<open>None\<close> first and raises
  \<^verbatim>\<open>TypeError\<close> as above, before any request.
\<close>

definition crawl_and_scrape ::
  "'w env \<Rightarrow> string option list \<Rightarrow> bool \<Rightarrow> string option \<Rightarrow> 'w glob
     \<Rightarrow> ((py_error + document list) \<times> 'w glob) option" where
  "crawl_and_scrape env urls recursive translate_to g =
     (case urls of
        [] \<Rightarrow> Some (Inl IndexError, g)
      | None # _ \<Rightarrow> Some (Inl TypeError, g)
      | Some first_url # _ \<Rightarrow>
          (case urlparse_netloc env first_url of
             None \<Rightarrow> Some (Inl ValueError, g)
           | Some base_domain \<Rightarrow>
               crawl_loop env base_domain recursive translate_to
                 \<lparr>visited = {}, documents = [], queue = urls\<rparr> g))"

subsection \<open>The callers\<close>

text \<open>
  \<^verbatim>\<open>load_documents_from_sources\<close> of \<^verbatim>\<open>create_knowledge_base.py\<close>, in the two
  steps of its body: \<open>load_urls\<close> is step 1 (\<^verbatim>\<open>if args.urls:\<close>, the sitemap, the
  crawl), \<open>load_pdfs\<close> is step 2 (\<^verbatim>\<open>if args.pdfs:\<close>, the reader on the first
  file), which runs only when step 1 raised nothing.
\<close>

definition load_urls ::
  "'w env \<Rightarrow> args \<Rightarrow> 'w glob \<Rightarrow> ((py_error + document list) \<times> 'w glob) option" where
  "load_urls env a g =
     (case args_urls a of
        [] \<Rightarrow> Some (Inr [], g)
      | first_url # _ \<Rightarrow>
          (case fetch_sitemap_urls env first_url g of
             (Inl e, g1) \<Rightarrow> Some (Inl e, g1)
           | (Inr sitemap_urls, g1) \<Rightarrow>
               let scrape_urls =
                     (if sitemap_urls \<noteq> [] then sitemap_urls else map Some (args_urls a)) in
               crawl_and_scrape env scrape_urls (args_recursive a) (args_translate_to a) g1))"

definition load_pdfs ::
  "'w env \<Rightarrow> args \<Rightarrow> document list \<Rightarrow> 'w glob \<Rightarrow> (py_error + document list) \<times> 'w glob" where
  "load_pdfs env a docs g =
     (case args_pdfs a of
        [] \<Rightarrow> (Inr docs, g)
      | first_pdf # _ \<Rightarrow>
          (case pdf_load_data env first_pdf (world g) of
             (None, w) \<Rightarrow> (Inl OtherException, g\<lparr>world := w\<rparr>)
           | (Some pdf_documents, w) \<Rightarrow> (Inr (docs @ pdf_documents), g\<lparr>world := w\<rparr>)))"

definition load_documents_from_sources ::
  "'w env \<Rightarrow> args \<Rightarrow> 'w glob \<Rightarrow> ((py_error + document list) \<times> 'w glob) option" where
  "load_documents_from_sources env a g =
     (case load_urls env a g of
        None \<Rightarrow> None
      | Some (Inl e, g1) \<Rightarrow> Some (Inl e, g1)
      | Some (Inr docs, g1) \<Rightarrow> Some (load_pdfs env a docs g1))"

text \<open>
  \<^verbatim>\<open>load_api_reference_documents\<close> of \<^verbatim>\<open>create_core_knowledge_base.py\<close>: the
  whole body is inside \<^verbatim>\<open>try ... except Exception\<close>, which returns the empty list.
\<close>

definition load_api_reference_documents ::
  "'w env \<Rightarrow> string \<Rightarrow> 'w glob \<Rightarrow> (document list \<times> 'w glob) option" where
  "load_api_reference_documents env u g =
     (case fetch_sitemap_urls env u g of
        (Inl e, g1) \<Rightarrow> Some ([], g1)
      | (Inr sitemap_urls, g1) \<Rightarrow>
          let scrape_urls = (if sitemap_urls \<noteq> [] then sitemap_urls else [Some u]) in
          (case crawl_and_scrape env scrape_urls (sitemap_urls = []) None g1 of
             None \<Rightarrow> None
           | Some (Inl e, g2) \<Rightarrow> Some ([], g2)
           | Some (Inr docs, g2) \<Rightarrow> Some (docs, g2)))"

section \<open>Notions used to state the properties\<close>

text \<open>
  A URL is in scope when it contains no ignore pattern and its host is the base domain:
  the two tests a dequeued URL passes before it is fetched.
\<close>

definition in_scope :: "'w env \<Rightarrow> string \<Rightarrow> string \<Rightarrow> bool" where
  "in_scope env base_domain u \<longleftrightarrow> \<not> ignored u \<and> urlparse_netloc env u = Some base_domain"

text \<open>The URLs of the content requests and of the link requests of a trace, in order.\<close>

fun content_requests :: "request list \<Rightarrow> string list" where
  "content_requests [] = []"
| "content_requests (ContentGet u # tr) = u # content_requests tr"
| "content_requests (SitemapGet u # tr) = content_requests tr"
| "content_requests (LinksGet u # tr) = content_requests tr"

fun links_requests :: "request list \<Rightarrow> string list" where
  "links_requests [] = []"
| "links_requests (LinksGet u # tr) = u # links_requests tr"
| "links_requests (SitemapGet u # tr) = links_requests tr"
| "links_requests (ContentGet u # tr) = links_requests tr"

fun request_url :: "request \<Rightarrow> string" where
  "request_url (SitemapGet u) = u"
| "request_url (ContentGet u) = u"
| "request_url (LinksGet u) = u"

text \<open>
  The fetch of \<open>u\<close> fails in world \<open>w\<close>: \<^verbatim>\<open>requests.get\<close> raises (a network
  error), or the response has a status from 400 to 599 (a client or server error).
\<close>

definition fetch_fails :: "'w env \<Rightarrow> string \<Rightarrow> 'w \<Rightarrow> bool" where
  "fetch_fails env u w =
     (case fst (http_get env u w) of
        RequestException \<Rightarrow> True
      | Response status content \<Rightarrow> 400 \<le> status \<and> status < 600)"

text \<open>
  The translation of \<open>page_text\<close> fails in state \<open>g\<close>: there is no client and creating
  one raises, or the call on the client (the existing one, or the one just created)
  raises.
\<close>

definition translation_fails :: "'w env \<Rightarrow> string \<Rightarrow> string \<Rightarrow> 'w glob \<Rightarrow> bool" where
  "translation_fails env page_text lang g =
     (case translate_client g of
        None \<Rightarrow>
          (case translate_Client env (world g) of
             (None, w) \<Rightarrow> True
           | (Some c, w) \<Rightarrow> fst (client_translate env c page_text lang w) = None)
      | Some c \<Rightarrow> fst (client_translate env c page_text lang (world g)) = None)"

text \<open>
  The pages a crawl can reach on a web that answers every request for \<open>u\<close> with
  \<open>web u\<close>: the seeds, and, when links are followed, the resolved links of every
  reachable page that is in scope and can be fetched.
\<close>

inductive_set crawl_reach ::
  "'w env \<Rightarrow> (string \<Rightarrow> string option) \<Rightarrow> string \<Rightarrow> bool \<Rightarrow> string list \<Rightarrow> string set"
  for env :: "'w env" and web :: "string \<Rightarrow> string option" and base_domain :: string
    and recursive :: bool and urls :: "string list" where
  seed: "u \<in> set urls \<Longrightarrow> u \<in> crawl_reach env web base_domain recursive urls"
| link: "u \<in> crawl_reach env web base_domain recursive urls \<Longrightarrow> in_scope env base_domain u \<Longrightarrow>
         recursive \<Longrightarrow> web u = Some content \<Longrightarrow> href \<in> set (soup_hrefs env content) \<Longrightarrow>
         urljoin env u href = Some v \<Longrightarrow> v \<in> crawl_reach env web base_domain recursive urls"

section \<open>A small site, for concrete runs\<close>

text \<open>
  The site of the specification's scenario: \<^verbatim>\<open>/docs\<close> links to \<^verbatim>\<open>/docs/a\<close>, to a page
  of another host, to a login page and to a page that does not exist; \<^verbatim>\<open>/docs/a\<close>
  links back to \<^verbatim>\<open>/docs\<close>; there is no sitemap. The three pages answer with
  status 200, every other URL with 404. Page bodies are short tags. The tables for
  \<^verbatim>\<open>urlparse\<close> and \<^verbatim>\<open>urljoin\<close> give what the library gives on these inputs;
  \<^verbatim>\<open>http://[::1\<close> is a URL on which both raise \<^verbatim>\<open>ValueError\<close>.
\<close>

definition demo_http :: "string \<Rightarrow> http_result" where
  "demo_http u =
     (if u = ''https://example.com/docs'' then Response 200 ''docs-home''
      else if u = ''https://example.com/docs/a'' then Response 200 ''page-a''
      else if u = ''https://other.com/x'' then Response 200 ''other''
      else Response 404 ''not-found'')"

text \<open>The bodies that \<^verbatim>\<open>requests.get\<close> and \<^verbatim>\<open>raise_for_status\<close> let through.\<close>

definition demo_web :: "string \<Rightarrow> string option" where
  "demo_web u =
     (if u = ''https://example.com/docs'' then Some ''docs-home''
      else if u = ''https://example.com/docs/a'' then Some ''page-a''
      else if u = ''https://other.com/x'' then Some ''other''
      else None)"

definition demo_netloc :: "string \<Rightarrow> string option" where
  "demo_netloc u =
     (if u = ''http://[::1'' then None
      else if prefix ''https://example.com/'' u then Some ''example.com''
      else if prefix ''https://other.com/'' u then Some ''other.com''
      else Some [])"

definition demo_urljoin :: "string \<Rightarrow> string \<Rightarrow> string option" where
  "demo_urljoin b href =
     (if href = ''http://[::1'' then None
      else if href = ''sitemap.xml'' \<and> b = ''https://example.com/docs''
        then Some ''https://example.com/sitemap.xml''
      else if href = ''/docs'' then Some ''https://example.com/docs''
      else if href = ''/docs/a'' then Some ''https://example.com/docs/a''
      else if href = ''/docs/missing'' then Some ''https://example.com/docs/missing''
      else if href = ''/login'' then Some ''https://example.com/login''
      else Some href)"

definition demo_hrefs :: "string \<Rightarrow> string list" where
  "demo_hrefs content =
     (if content = ''docs-home''
        then [''/docs/a'', ''https://other.com/x'', ''/login'', ''/docs/missing'']
      else if content = ''page-a'' then [''/docs'']
      else [])"

definition demo :: "unit env" where
  "demo = \<lparr>http_get = (\<lambda>u w. (demo_http u, w)),
           urlparse_netloc = demo_netloc,
           urljoin = demo_urljoin,
           soup_get_text = (\<lambda>content. content),
           soup_hrefs = demo_hrefs,
           sitemap_locs = (\<lambda>content. ParseError),
           translate_Client = (\<lambda>w. (None, w)),
           client_translate = (\<lambda>c page_text lang w. (None, w)),
           pdf_load_data = (\<lambda>file w. (None, w))\<rparr>"

text \<open>The same site with a sitemap that lists \<^verbatim>\<open>/docs\<close> only.\<close>

definition demo_sitemap :: "unit env" where
  "demo_sitemap =
     demo\<lparr>http_get :=
             (\<lambda>u w. (if u = ''https://example.com/sitemap.xml'' then Response 200 ''sitemap-xml''
                      else demo_http u, w)),
          sitemap_locs :=
             (\<lambda>content. if content = ''sitemap-xml'' then Locs [Some ''https://example.com/docs'']
                         else ParseError)\<rparr>"

text \<open>
  The same sitemap, served with status 300, which is outside 2xx and on which
  \<^verbatim>\<open>raise_for_status\<close> raises nothing.
\<close>

definition demo_sitemap_300 :: "unit env" where
  "demo_sitemap_300 =
     demo_sitemap\<lparr>http_get :=
             (\<lambda>u w. (if u = ''https://example.com/sitemap.xml'' then Response 300 ''sitemap-xml''
                      else demo_http u, w))\<rparr>"


text \<open>
  The site with no sitemap, where \<^verbatim>\<open>/sitemap.xml\<close> answers with status 200 and an
  HTML page, which is not well-formed XML.
\<close>

definition demo_soft404 :: "unit env" where
  "demo_soft404 =
     demo\<lparr>http_get :=
             (\<lambda>u w. (if u = ''https://example.com/sitemap.xml'' then Response 200 ''not-found-page''
                      else demo_http u, w))\<rparr>"

text \<open>The same site with a translation client that can be created and whose calls raise.\<close>

definition demo_quota :: "unit env" where
  "demo_quota = demo\<lparr>translate_Client := (\<lambda>w. (Some Client, w))\<rparr>"

definition g0 :: "unit glob" where
  "g0 = \<lparr>world = (), translate_client = None, trace = []\<rparr>"

definition demo_urls :: "string set" where
  "demo_urls =
     {''https://example.com/docs'', ''https://example.com/docs/a'', ''https://other.com/x'',
      ''https://example.com/login'', ''https://example.com/docs/missing''}"

definition demo_docs :: "document list" where
  "demo_docs =
     [Document ''docs-home'' ''https://example.com/docs'',
      Document ''page-a'' ''https://example.com/docs/a'']"

definition demo_trace :: "request list" where
  "demo_trace =
     [ContentGet ''https://example.com/docs'', LinksGet ''https://example.com/docs'',
      ContentGet ''https://example.com/docs/a'', LinksGet ''https://example.com/docs/a'',
      ContentGet ''https://example.com/docs/missing'',
      LinksGet ''https://example.com/docs/missing'']"

definition l0 :: crawl_locals where
  "l0 = \<lparr>visited = {}, documents = [], queue = []\<rparr>"

definition demo_args :: "bool \<Rightarrow> args" where
  "demo_args r =
     \<lparr>args_urls = [''https://example.com/docs''], args_pdfs = [], args_recursive = r,
      args_translate_to = None\<rparr>"

section \<open>Invariants of the loop\<close>

text \<open>
  Every document carries the URL of a visited page, every visited page is on the base
  domain, and no two documents carry the same URL.
\<close>

definition docs_inv :: "'w env \<Rightarrow> string \<Rightarrow> crawl_locals \<Rightarrow> bool" where
  "docs_inv env base l \<longleftrightarrow>
     (\<forall>d\<in>set (documents l). \<exists>u\<in>visited l. doc_url d = Some u) \<and>
     (\<forall>u\<in>visited l. urlparse_netloc env u = Some base) \<and>
     distinct (map doc_url (documents l))"

text \<open>
  The requests of a crawl, \<open>new\<close>, against the set \<open>vis\<close> of visited URLs: no URL
  is requested twice for content or twice for links, every request is a content request
  or (when links are followed) a link request for a visited URL, and every visited URL
  is in scope and, when links are not followed, one of the URLs the crawl was given.
\<close>

definition trace_ok ::
  "'w env \<Rightarrow> string \<Rightarrow> bool \<Rightarrow> string option list \<Rightarrow> string set \<Rightarrow> request list \<Rightarrow> bool" where
  "trace_ok env base r urls vis new \<longleftrightarrow>
     distinct (content_requests new) \<and> distinct (links_requests new) \<and>
     (\<forall>e\<in>set new. request_url e \<in> vis \<and> (\<exists>u. e = ContentGet u \<or> (r \<and> e = LinksGet u))) \<and>
     (\<forall>u\<in>vis. in_scope env base u \<and> (\<not> r \<longrightarrow> Some u \<in> set urls))"

definition trace_inv ::
  "'w env \<Rightarrow> string \<Rightarrow> bool \<Rightarrow> string option list \<Rightarrow> request list \<Rightarrow> crawl_locals
     \<Rightarrow> 'w glob \<Rightarrow> bool" where
  "trace_inv env base r urls t0 l g \<longleftrightarrow>
     (\<exists>new. trace g = t0 @ new \<and> trace_ok env base r urls (visited l) new) \<and>
     (\<not> r \<longrightarrow> set (queue l) \<subseteq> set urls)"

definition trace_post ::
  "'w env \<Rightarrow> bool \<Rightarrow> string option list \<Rightarrow> request list \<Rightarrow> 'w glob \<Rightarrow> bool" where
  "trace_post env r urls t0 g \<longleftrightarrow>
     (\<exists>base vis new. trace g = t0 @ new \<and> trace_ok env base r urls vis new)"

text \<open>
  On a static web: visited pages are reachable and in scope, queued URLs are reachable, every
  seed and every link of a visited page is visited, queued or out of scope, and the
  documents are, one each, those of the visited pages that could be fetched.
\<close>

definition reach_inv ::
  "'w env \<Rightarrow> (string \<Rightarrow> string option) \<Rightarrow> string \<Rightarrow> bool \<Rightarrow> string list \<Rightarrow> crawl_locals \<Rightarrow> bool" where
  "reach_inv env web base r urls l \<longleftrightarrow>
     visited l \<subseteq> {u \<in> crawl_reach env web base r urls. in_scope env base u} \<and>
     set (queue l) \<subseteq> Some ` crawl_reach env web base r urls \<and>
     (\<forall>u\<in>set urls. u \<in> visited l \<or> Some u \<in> set (queue l) \<or> \<not> in_scope env base u) \<and>
     (r \<longrightarrow> (\<forall>u\<in>visited l. \<forall>c h v. web u = Some c \<longrightarrow> h \<in> set (soup_hrefs env c) \<longrightarrow>
              urljoin env u h = Some v \<longrightarrow>
              v \<in> visited l \<or> Some v \<in> set (queue l) \<or> \<not> in_scope env base v)) \<and>
     distinct (map doc_url (documents l)) \<and>
     set (map doc_url (documents l)) = Some ` {u \<in> visited l. web u \<noteq> None}"

section \<open>Auxiliary lemmas\<close>

subsection \<open>What one call does\<close>

lemma translate_call_trace: "translate_call env c p lang g = (r, g1) \<Longrightarrow> trace g1 = trace g"
  by (auto simp: translate_call_def split: prod.splits option.splits)

lemma translate_text_trace: "translate_text env p lang g = (r, g1) \<Longrightarrow> trace g1 = trace g"
  by (auto simp: translate_text_def split: prod.splits option.splits dest: translate_call_trace)

lemma process_url_trace: "process_url env u t g = (doc, g1) \<Longrightarrow> trace g1 = trace g @ [ContentGet u]"
  by (auto simp: process_url_def Let_def split: prod.splits option.splits if_splits dest: translate_text_trace)

lemma doc_url_Document [simp]: "doc_url (Document p u) = Some u"
  by (simp add: doc_url_def Document_def)

lemma process_url_doc_url: "process_url env u t g = (Some d, g1) \<Longrightarrow> doc_url d = Some u"
  by (auto simp: process_url_def Let_def split: prod.splits option.splits if_splits)

lemma process_url_None: "fst (process_url env u t g) = None \<longleftrightarrow> fst (requests_get env u (world g)) = None"
  by (auto simp: process_url_def Let_def split: prod.splits option.splits if_splits)

lemma enqueue_links_Inr:
  "enqueue_links env cur vis hs q = Inr q1 \<longleftrightarrow>
     (\<exists>as. map (urljoin env cur) hs = map Some as \<and>
           q1 = q @ map Some (filter (\<lambda>a. a \<notin> vis) as))"
proof (induction hs arbitrary: q)
  case Nil
  then show ?case by auto
next
  case (Cons h hs)
  show ?case
  proof (cases "urljoin env cur h")
    case None
    then show ?thesis by (auto simp: map_eq_Cons_conv)
  next
    case (Some a)
    then show ?thesis
      by (auto simp: Cons.IH map_eq_Cons_conv Cons_eq_map_conv)
  qed
qed

lemma enqueue_links_Inl: "enqueue_links env cur vis hs q = Inl e \<Longrightarrow> e = ValueError"
  by (induction hs arbitrary: q) (auto split: option.splits)

lemma crawl_body_skip:
  assumes "cur \<in> visited l \<or> ignored cur \<or> (\<exists>d. urlparse_netloc env cur = Some d \<and> d \<noteq> base)"
  shows "crawl_body env base r t cur l g = (Inr l, g)"
  using assms by (auto simp: crawl_body_def)

lemma crawl_body_parse_error:
  assumes "cur \<notin> visited l" "\<not> ignored cur" "urlparse_netloc env cur = None"
  shows "crawl_body env base r t cur l g = (Inl ValueError, g)"
  using assms by (simp add: crawl_body_def)

lemma crawl_body_visit:
  assumes "cur \<notin> visited l" "in_scope env base cur"
    and p: "process_url env cur t g = (doc, gp)"
  shows "crawl_body env base r t cur l g =
     (let l2 = l\<lparr>visited := insert cur (visited l),
                 documents := documents l @ (case doc of None \<Rightarrow> [] | Some d \<Rightarrow> [d])\<rparr> in
      if r then
        (case requests_get env cur (world gp) of
           (response, w) \<Rightarrow>
             let g2 = gp\<lparr>world := w, trace := trace gp @ [LinksGet cur]\<rparr> in
             (case response of
                None \<Rightarrow> (Inr l2, g2)
              | Some content \<Rightarrow>
                  (case enqueue_links env cur (insert cur (visited l)) (soup_hrefs env content) (queue l) of
                     Inl e \<Rightarrow> (Inl e, g2)
                   | Inr q \<Rightarrow> (Inr (l2\<lparr>queue := q\<rparr>), g2)))) 
      else (Inr l2, gp))"
  using assms by (auto simp: crawl_body_def in_scope_def Let_def split: option.splits prod.splits sum.splits)

lemma crawl_body_trace:
  assumes "crawl_body env base r t cur l g = (res, g1)"
  shows "trace g1 = trace g @
           (if cur \<notin> visited l \<and> in_scope env base cur
            then ContentGet cur # (if r then [LinksGet cur] else []) else [])"
proof (cases "cur \<notin> visited l \<and> in_scope env base cur")
  case True
  obtain doc gp where p: "process_url env cur t g = (doc, gp)" by (cases "process_url env cur t g")
  from True have a: "cur \<notin> visited l" "in_scope env base cur" by auto
  show ?thesis using assms True process_url_trace[OF p]
    unfolding crawl_body_visit[OF a p]
    by (auto simp: Let_def split: if_splits prod.splits option.splits sum.splits)
next
  case False
  then show ?thesis using assms
    by (auto simp: crawl_body_def in_scope_def split: option.splits if_splits)
qed

lemma crawl_body_Inr:
  assumes "crawl_body env base r t cur l g = (Inr l1, g1)"
  shows "visited l1 = (if in_scope env base cur then insert cur (visited l) else visited l)"
    and "\<exists>ds. documents l1 = documents l @ ds \<and>
           ds = (if cur \<notin> visited l \<and> in_scope env base cur
                 then (case fst (process_url env cur t g) of None \<Rightarrow> [] | Some d \<Rightarrow> [d]) else [])"
    and "\<exists>as. queue l1 = queue l @ map Some (filter (\<lambda>a. a \<notin> insert cur (visited l)) as) \<and>
           (if cur \<notin> visited l \<and> in_scope env base cur \<and> r
            then (case fst (requests_get env cur (world (snd (process_url env cur t g)))) of
                    None \<Rightarrow> as = []
                  | Some c \<Rightarrow> map (urljoin env cur) (soup_hrefs env c) = map Some as)
            else as = [])"
proof -
  obtain doc gp where p: "process_url env cur t g = (doc, gp)" by (cases "process_url env cur t g")
  show "visited l1 = (if in_scope env base cur then insert cur (visited l) else visited l)"
  proof (cases "cur \<notin> visited l \<and> in_scope env base cur")
    case True
    then have a: "cur \<notin> visited l" "in_scope env base cur" by auto
    show ?thesis using assms a unfolding crawl_body_visit[OF a p]
      by (auto simp: Let_def split: if_splits prod.splits option.splits sum.splits)
  next
    case False
    then show ?thesis using assms
      by (auto simp: crawl_body_def in_scope_def split: option.splits if_splits)
  qed
  show "\<exists>ds. documents l1 = documents l @ ds \<and>
           ds = (if cur \<notin> visited l \<and> in_scope env base cur
                 then (case fst (process_url env cur t g) of None \<Rightarrow> [] | Some d \<Rightarrow> [d]) else [])"
  proof (cases "cur \<notin> visited l \<and> in_scope env base cur")
    case True
    then have a: "cur \<notin> visited l" "in_scope env base cur" by auto
    show ?thesis using assms a p unfolding crawl_body_visit[OF a p]
      by (auto simp: Let_def split: if_splits prod.splits option.splits sum.splits)
  next
    case False
    then show ?thesis using assms
      by (auto simp: crawl_body_def in_scope_def split: option.splits if_splits)
  qed
  show "\<exists>as. queue l1 = queue l @ map Some (filter (\<lambda>a. a \<notin> insert cur (visited l)) as) \<and>
           (if cur \<notin> visited l \<and> in_scope env base cur \<and> r
            then (case fst (requests_get env cur (world (snd (process_url env cur t g)))) of
                    None \<Rightarrow> as = []
                  | Some c \<Rightarrow> map (urljoin env cur) (soup_hrefs env c) = map Some as)
            else as = [])"
  proof (cases "cur \<notin> visited l \<and> in_scope env base cur")
    case True
    then have a: "cur \<notin> visited l" "in_scope env base cur" by auto
    show ?thesis using assms a p unfolding crawl_body_visit[OF a p]
      by (auto simp: Let_def enqueue_links_Inr split: if_splits prod.splits option.splits sum.splits)
  next
    case False
    then have "l1 = l" using assms
      by (auto simp: crawl_body_def in_scope_def split: option.splits if_splits)
    with False show ?thesis by (intro exI[of _ "[]"]) auto
  qed
qed

subsection \<open>An invariant rule for the loop\<close>

text \<open>
  A run of the loop that ends establishes \<open>R\<close> of its outcome when \<open>I\<close> holds at
  the start, every iteration that does not raise keeps \<open>I\<close>, and \<open>I\<close> gives
  \<open>R\<close> at the exit and at an iteration that raises.
\<close>

lemma crawl_loop_rule:
  assumes run: "crawl_loop env base r t l g = Some (res, gf)"
    and init: "I l g"
    and pres: "\<And>l g cur rest l1 g1. I l g \<Longrightarrow> queue l = Some cur # rest \<Longrightarrow>
                 crawl_body env base r t cur (l\<lparr>queue := rest\<rparr>) g = (Inr l1, g1) \<Longrightarrow> I l1 g1"
    and fin: "\<And>l g. I l g \<Longrightarrow> queue l = [] \<Longrightarrow> R (Inr (documents l)) g"
    and err: "\<And>l g cur rest e g1. I l g \<Longrightarrow> queue l = Some cur # rest \<Longrightarrow>
                 crawl_body env base r t cur (l\<lparr>queue := rest\<rparr>) g = (Inl e, g1) \<Longrightarrow> R (Inl e) g1"
    and non: "\<And>l g rest. I l g \<Longrightarrow> queue l = None # rest \<Longrightarrow> R (Inl TypeError) g"
  shows "R res gf"
proof -
  let ?P = "\<lambda>env1 base1 r1 t1 l1 g1 y.
              env1 = env \<and> base1 = base \<and> r1 = r \<and> t1 = t \<longrightarrow> I l1 g1 \<longrightarrow> R (fst y) (snd y)"
  have "?P env base r t l g (res, gf)"
  proof (rule crawl_loop.raw_induct[where P = ?P, OF _ run])
    fix f env1 base1 r1 t1 l1 g1 y
    assume IH: "\<And>env2 base2 r2 t2 l2 g2 y2. f env2 base2 r2 t2 l2 g2 = Some y2 \<Longrightarrow> ?P env2 base2 r2 t2 l2 g2 y2"
      and body: "(case queue l1 of [] \<Rightarrow> Some (Inr (documents l1), g1)
                  | None # rest \<Rightarrow> Some (Inl TypeError, g1)
                  | Some current_url # rest \<Rightarrow>
                     (case crawl_body env1 base1 r1 t1 current_url (l1\<lparr>queue := rest\<rparr>) g1 of
                        (Inl e, g2) \<Rightarrow> Some (Inl e, g2)
                      | (Inr l2, g2) \<Rightarrow> f env1 base1 r1 t1 l2 g2)) = Some y"
    show "?P env1 base1 r1 t1 l1 g1 y"
    proof (intro impI, elim conjE)
      assume eqs: "env1 = env" "base1 = base" "r1 = r" "t1 = t" and I: "I l1 g1"
      show "R (fst y) (snd y)"
      proof (cases "queue l1")
        case Nil
        with body fin[OF I Nil] show ?thesis by auto
      next
        case (Cons x rest)
        show ?thesis
        proof (cases x)
          case None
          with body Cons non[OF I, of rest] show ?thesis by auto
        next
          case (Some cur)
          with Cons have q: "queue l1 = Some cur # rest" by simp
          obtain x g2 where b: "crawl_body env base r t cur (l1\<lparr>queue := rest\<rparr>) g1 = (x, g2)"
            by (cases "crawl_body env base r t cur (l1\<lparr>queue := rest\<rparr>) g1")
          show ?thesis
          proof (cases x)
            case (Inl e)
            with body q b eqs err[OF I q, of e g2] show ?thesis by auto
          next
            case (Inr l2)
            with body q b eqs have "f env base r t l2 g2 = Some y" by simp
            from IH[OF this] pres[OF I q, of l2 g2] b Inr show ?thesis by auto
          qed
        qed
      qed
    qed
  qed
  with init show ?thesis by simp
qed

subsection \<open>The run on the small site\<close>

lemma demo_run:
  "crawl_and_scrape demo [Some ''https://example.com/docs''] True None g0 =
     Some (Inr demo_docs, g0\<lparr>trace := demo_trace\<rparr>)"
  by code_simp

subsection \<open>Documents and visited pages\<close>

lemma process_url_fst_doc_url: "fst (process_url env u t g) = Some d \<Longrightarrow> doc_url d = Some u"
  by (cases "process_url env u t g") (auto dest: process_url_doc_url)

lemma docs_inv_step:
  assumes inv: "docs_inv env base l" and q: "queue l = Some cur # rest"
    and b: "crawl_body env base r t cur (l\<lparr>queue := rest\<rparr>) g = (Inr l1, g1)"
  shows "docs_inv env base l1"
proof (cases "cur \<notin> visited l \<and> in_scope env base cur")
  case True
  from crawl_body_Inr(1)[OF b] True have v: "visited l1 = insert cur (visited l)" by simp
  from crawl_body_Inr(2)[OF b] True
  have d: "documents l1 = documents l @
             (case fst (process_url env cur t g) of None \<Rightarrow> [] | Some d \<Rightarrow> [d])" by simp
  from True have nl: "urlparse_netloc env cur = Some base" by (simp add: in_scope_def)
  show ?thesis
  proof (cases "fst (process_url env cur t g)")
    case None
    with inv v d nl show ?thesis by (auto simp: docs_inv_def)
  next
    case (Some doc)
    from process_url_fst_doc_url[OF Some] have du: "doc_url doc = Some cur" .
    have "Some cur \<notin> doc_url ` set (documents l)"
      using inv True by (auto simp: docs_inv_def)
    with inv v d nl Some du show ?thesis by (auto simp: docs_inv_def)
  qed
next
  case False
  from crawl_body_Inr(1)[OF b] False have v: "visited l1 = visited l"
    by (auto simp: insert_absorb)
  from crawl_body_Inr(2)[OF b] False have d: "documents l1 = documents l" by auto
  from inv v d show ?thesis by (simp add: docs_inv_def)
qed

subsection \<open>The trace of a crawl\<close>

lemma content_requests_append [simp]:
  "content_requests (a @ b) = content_requests a @ content_requests b"
  by (induction a rule: content_requests.induct) auto

lemma links_requests_append [simp]:
  "links_requests (a @ b) = links_requests a @ links_requests b"
  by (induction a rule: links_requests.induct) auto

lemma content_requests_subset: "set (content_requests tr) \<subseteq> request_url ` set tr"
  by (induction tr rule: content_requests.induct) auto

lemma links_requests_subset: "set (links_requests tr) \<subseteq> request_url ` set tr"
  by (induction tr rule: links_requests.induct) auto

lemma trace_ok_empty: "trace_ok env base r urls {} []"
  by (simp add: trace_ok_def)

lemma trace_ok_extend:
  assumes ok: "trace_ok env base r urls vis new" and new: "cur \<notin> vis"
    and sc: "in_scope env base cur" and u: "\<not> r \<longrightarrow> Some cur \<in> set urls"
  shows "trace_ok env base r urls (insert cur vis)
           (new @ ContentGet cur # (if r then [LinksGet cur] else []))"
proof -
  from ok have "request_url ` set new \<subseteq> vis" by (auto simp: trace_ok_def)
  with new content_requests_subset[of new] links_requests_subset[of new]
  have "cur \<notin> set (content_requests new)" "cur \<notin> set (links_requests new)" by auto
  with ok sc u show ?thesis by (auto simp: trace_ok_def)
qed

lemma trace_inv_body:
  assumes inv: "trace_inv env base r urls t0 l g" and q: "queue l = Some cur # rest"
    and b: "crawl_body env base r t cur (l\<lparr>queue := rest\<rparr>) g = (res, g1)"
  shows "\<exists>new. trace g1 = t0 @ new \<and>
           trace_ok env base r urls
             (if in_scope env base cur then insert cur (visited l) else visited l) new"
proof -
  from inv obtain new where n: "trace g = t0 @ new" "trace_ok env base r urls (visited l) new"
    by (auto simp: trace_inv_def)
  from inv q have cu: "\<not> r \<longrightarrow> Some cur \<in> set urls" by (auto simp: trace_inv_def)
  show ?thesis
  proof (cases "cur \<notin> visited l \<and> in_scope env base cur")
    case True
    with crawl_body_trace[OF b] n(1)
    have "trace g1 = t0 @ (new @ ContentGet cur # (if r then [LinksGet cur] else []))" by simp
    moreover from True n(2) cu
    have "trace_ok env base r urls (insert cur (visited l))
            (new @ ContentGet cur # (if r then [LinksGet cur] else []))"
      by (intro trace_ok_extend) auto
    ultimately show ?thesis using True by auto
  next
    case False
    with crawl_body_trace[OF b] n(1) have "trace g1 = t0 @ new" by auto
    with False n(2) show ?thesis by (auto simp: insert_absorb)
  qed
qed

lemma trace_inv_step:
  assumes inv: "trace_inv env base r urls t0 l g" and q: "queue l = Some cur # rest"
    and b: "crawl_body env base r t cur (l\<lparr>queue := rest\<rparr>) g = (Inr l1, g1)"
  shows "trace_inv env base r urls t0 l1 g1"
proof -
  from crawl_body_Inr(3)[OF b] have "\<not> r \<longrightarrow> queue l1 = rest" by auto
  with inv q have "\<not> r \<longrightarrow> set (queue l1) \<subseteq> set urls" by (auto simp: trace_inv_def)
  moreover from crawl_body_Inr(1)[OF b]
  have "visited l1 = (if in_scope env base cur then insert cur (visited l) else visited l)"
    by simp
  ultimately show ?thesis
    using trace_inv_body[OF inv q b] unfolding trace_inv_def by metis
qed

lemma crawl_loop_trace:
  fixes env :: "'w env"
  assumes loop: "crawl_loop env base r t \<lparr>visited = {}, documents = [], queue = urls\<rparr> g = Some (res, g1)"
  shows "trace_post env r urls (trace g) g1"
proof -
  let ?inv = "trace_inv env base r urls (trace g)"
  let ?post = "\<lambda>(res::py_error + document list). trace_post env r urls (trace g)"
  have init: "?inv \<lparr>visited = {}, documents = [], queue = urls\<rparr> g"
    by (simp add: trace_inv_def trace_ok_empty)
  show ?thesis
  proof (rule crawl_loop_rule[where I = ?inv and R = ?post, OF loop init])
    fix l g cur rest l1 g1
    assume "?inv l g" "queue l = Some cur # rest"
      "crawl_body env base r t cur (l\<lparr>queue := rest\<rparr>) g = (Inr l1, g1)"
    then show "?inv l1 g1" by (rule trace_inv_step)
  next
    fix l :: crawl_locals and g :: "'w glob"
    assume "?inv l g" "queue l = []"
    then show "?post (Inr (documents l)) g" by (auto simp: trace_inv_def trace_post_def)
  next
    fix l g cur rest e g1
    assume "?inv l g" "queue l = Some cur # rest"
      "crawl_body env base r t cur (l\<lparr>queue := rest\<rparr>) g = (Inl e, g1)"
    from trace_inv_body[OF this] show "?post (Inl e) g1" by (auto simp: trace_post_def)
  next
    fix l :: crawl_locals and g :: "'w glob" and rest
    assume "?inv l g" "queue l = None # rest"
    then show "?post (Inl TypeError) g" by (auto simp: trace_inv_def trace_post_def)
  qed
qed

lemma crawl_and_scrape_trace:
  assumes run: "crawl_and_scrape env urls r t g = Some (res, g1)"
  shows "trace_post env r urls (trace g) g1"
proof -
  have same: "trace_post env r urls (trace g) g1" if "g1 = g"
    using that trace_ok_empty by (fastforce simp: trace_post_def)
  show ?thesis
  proof (cases urls)
    case Nil
    with run show ?thesis by (intro same) (simp add: crawl_and_scrape_def)
  next
    case (Cons x others)
    show ?thesis
    proof (cases x)
      case None
      with run Cons show ?thesis by (intro same) (simp add: crawl_and_scrape_def)
    next
      case (Some first_url)
      show ?thesis
      proof (cases "urlparse_netloc env first_url")
        case None
        with run Cons Some show ?thesis by (intro same) (simp add: crawl_and_scrape_def)
      next
        case (Some base)
        with run Cons \<open>x = Some first_url\<close> show ?thesis
          by (auto simp: crawl_and_scrape_def intro: crawl_loop_trace)
      qed
    qed
  qed
qed

subsection \<open>Translation\<close>

lemma translate_text_fails:
  "translation_fails env page_text lang g \<Longrightarrow> fst (translate_text env page_text lang g) = page_text"
  by (auto simp: translation_fails_def translate_text_def translate_call_def
           split: option.splits prod.splits)

lemma process_url_translation_fails:
  assumes get: "requests_get env u (world g) = (Some content, w)"
    and lang: "lang \<noteq> []"
    and fails: "translation_fails env (soup_get_text env content) lang
                  (g\<lparr>world := w, trace := trace g @ [ContentGet u]\<rparr>)"
  shows "fst (process_url env u (Some lang) g) = Some (Document (soup_get_text env content) u)"
  using assms translate_text_fails[OF fails]
  by (auto simp: process_url_def Let_def split: prod.splits)

subsection \<open>Unfolding the loop\<close>

lemma crawl_loop_Nil: "queue l = [] \<Longrightarrow> crawl_loop env base r t l g = Some (Inr (documents l), g)"
  by (subst crawl_loop.simps) simp

lemma crawl_loop_Cons_Inr:
  "queue l = Some cur # rest \<Longrightarrow> crawl_body env base r t cur (l\<lparr>queue := rest\<rparr>) g = (Inr l1, g1) \<Longrightarrow>
   crawl_loop env base r t l g = crawl_loop env base r t l1 g1"
  by (subst crawl_loop.simps) simp

lemma crawl_loop_Cons_Inl:
  "queue l = Some cur # rest \<Longrightarrow> crawl_body env base r t cur (l\<lparr>queue := rest\<rparr>) g = (Inl e, g1) \<Longrightarrow>
   crawl_loop env base r t l g = Some (Inl e, g1)"
  by (subst crawl_loop.simps) simp

lemma crawl_loop_None:
  "queue l = None # rest \<Longrightarrow> crawl_loop env base r t l g = Some (Inl TypeError, g)"
  by (subst crawl_loop.simps) simp

lemma crawl_loop_nonrecursive_terminates:
  "\<exists>res g1. crawl_loop env base False t l g = Some (res, g1)"
proof (induction "queue l" arbitrary: l g)
  case Nil
  then show ?case by (simp add: crawl_loop_Nil)
next
  case (Cons x rest)
  show ?case
  proof (cases x)
    case None
    with Cons(2) show ?thesis by (simp add: crawl_loop_None[of l rest])
  next
    case (Some cur)
    with Cons(2) have q: "queue l = Some cur # rest" by simp
    obtain y g2 where b: "crawl_body env base False t cur (l\<lparr>queue := rest\<rparr>) g = (y, g2)"
      by (cases "crawl_body env base False t cur (l\<lparr>queue := rest\<rparr>) g")
    show ?thesis
    proof (cases y)
      case (Inl e)
      with b show ?thesis by (simp add: crawl_loop_Cons_Inl[OF q])
    next
      case (Inr l1)
      with crawl_body_Inr(3)[of env base False t cur "l\<lparr>queue := rest\<rparr>" g l1 g2] b
      have "rest = queue l1" by auto
      from Cons(1)[OF this] b Inr show ?thesis
        by (simp add: crawl_loop_Cons_Inr[OF q])
    qed
  qed
qed

lemma crawl_and_scrape_nonrecursive_terminates:
  "\<exists>res g1. crawl_and_scrape env urls False t g = Some (res, g1)"
  using crawl_loop_nonrecursive_terminates
  by (auto simp: crawl_and_scrape_def split: list.splits option.splits)

lemma crawl_and_scrape_nonrecursive_requests:
  assumes "crawl_and_scrape env urls False t g = Some (res, g1)"
  shows "\<exists>new. trace g1 = trace g @ new \<and>
           (\<forall>e\<in>set new. \<exists>v. Some v \<in> set urls \<and> e = ContentGet v)"
proof -
  from crawl_and_scrape_trace[OF assms] obtain base vis new where
    n: "trace g1 = trace g @ new" "trace_ok env base False urls vis new"
    by (auto simp: trace_post_def)
  have "\<exists>v. Some v \<in> set urls \<and> e = ContentGet v" if "e \<in> set new" for e
  proof -
    from n(2) that obtain u where "e = ContentGet u" "request_url e \<in> vis"
      by (auto simp: trace_ok_def)
    moreover from n(2) have "\<forall>v\<in>vis. Some v \<in> set urls" by (auto simp: trace_ok_def)
    ultimately show ?thesis by auto
  qed
  with n(1) show ?thesis by blast
qed

subsection \<open>Crawling a static web\<close>

lemma enqueue_links_total:
  "(\<forall>h\<in>set hs. urljoin env cur h \<noteq> None) \<Longrightarrow> \<exists>q1. enqueue_links env cur vis hs q = Inr q1"
  by (induction hs arbitrary: q) (auto split: option.splits)

lemma map_Some_eq_iff:
  "map f hs = map Some as \<Longrightarrow> v \<in> set as \<longleftrightarrow> (\<exists>h\<in>set hs. f h = Some v)"
proof (induction hs arbitrary: as)
  case Nil
  then show ?case by simp
next
  case (Cons h hs)
  then obtain a as' where "as = a # as'" "f h = Some a" "map f hs = map Some as'"
    by (cases as) auto
  with Cons.IH[of as'] show ?case by auto
qed

text \<open>A static web: the answer to a request depends on the URL only.\<close>

lemma process_url_static:
  assumes "\<And>u w. fst (requests_get env u w) = web u"
  shows "fst (process_url env u t g) = None \<longleftrightarrow> web u = None"
  using assms[of u "world g"] by (simp add: process_url_None)

lemma crawl_body_total:
  assumes static: "\<And>u w. fst (requests_get env u w) = web u"
    and parse: "cur \<in> visited l \<or> ignored cur \<or> urlparse_netloc env cur \<noteq> None"
    and closed: "\<And>content href. in_scope env base cur \<Longrightarrow> web cur = Some content \<Longrightarrow>
                   href \<in> set (soup_hrefs env content) \<Longrightarrow> urljoin env cur href \<noteq> None"
  shows "\<exists>l1 g1. crawl_body env base r t cur l g = (Inr l1, g1)"
proof (cases "cur \<notin> visited l \<and> in_scope env base cur")
  case True
  then have a: "cur \<notin> visited l" "in_scope env base cur" by auto
  obtain doc gp where p: "process_url env cur t g = (doc, gp)" by (cases "process_url env cur t g")
  obtain resp w where g: "requests_get env cur (world gp) = (resp, w)"
    by (cases "requests_get env cur (world gp)")
  with static[of cur "world gp"] have w: "resp = web cur" by simp
  show ?thesis
  proof (cases resp)
    case None
    with g show ?thesis unfolding crawl_body_visit[OF a p] by (auto simp: Let_def)
  next
    case (Some c)
    with w have wc: "web cur = Some c" by simp
    have "\<forall>h\<in>set (soup_hrefs env c). urljoin env cur h \<noteq> None"
      using closed[OF a(2) wc] by blast
    from enqueue_links_total[OF this] obtain q1 where
      "enqueue_links env cur (insert cur (visited l)) (soup_hrefs env c) (queue l) = Inr q1"
      by blast
    with g Some show ?thesis unfolding crawl_body_visit[OF a p] by (auto simp: Let_def)
  qed
next
  case False
  with parse have "cur \<in> visited l \<or> ignored cur \<or> (\<exists>d. urlparse_netloc env cur = Some d \<and> d \<noteq> base)"
    by (auto simp: in_scope_def)
  from crawl_body_skip[OF this] show ?thesis by blast
qed

lemma crawl_body_static_queue:
  assumes static: "\<And>u w. fst (requests_get env u w) = web u"
    and b: "crawl_body env base r t cur l g = (Inr l1, g1)"
  shows "set (queue l1) = set (queue l) \<union> Some `
           (if cur \<notin> visited l \<and> in_scope env base cur \<and> r
            then {v. v \<notin> insert cur (visited l) \<and>
                     (\<exists>c. web cur = Some c \<and> (\<exists>h\<in>set (soup_hrefs env c). urljoin env cur h = Some v))}
            else {})"
    and "length (queue l) \<le> length (queue l1)"
    and "cur \<in> visited l \<or> \<not> in_scope env base cur \<Longrightarrow> queue l1 = queue l"
proof -
  from crawl_body_Inr(3)[OF b] obtain as where
    q: "queue l1 = queue l @ map Some (filter (\<lambda>a. a \<notin> insert cur (visited l)) as)"
    and as: "if cur \<notin> visited l \<and> in_scope env base cur \<and> r
            then (case fst (requests_get env cur (world (snd (process_url env cur t g)))) of
                    None \<Rightarrow> as = []
                  | Some c \<Rightarrow> map (urljoin env cur) (soup_hrefs env c) = map Some as)
            else as = []" by blast
  from q show "length (queue l) \<le> length (queue l1)" by simp
  from q as show "cur \<in> visited l \<or> \<not> in_scope env base cur \<Longrightarrow> queue l1 = queue l"
    by (auto split: if_splits)
  show "set (queue l1) = set (queue l) \<union> Some `
           (if cur \<notin> visited l \<and> in_scope env base cur \<and> r
            then {v. v \<notin> insert cur (visited l) \<and>
                     (\<exists>c. web cur = Some c \<and> (\<exists>h\<in>set (soup_hrefs env c). urljoin env cur h = Some v))}
            else {})"
  proof (cases "cur \<notin> visited l \<and> in_scope env base cur \<and> r")
    case False
    with q as show ?thesis by auto
  next
    case True
    show ?thesis
    proof (cases "web cur")
      case None
      with True as static[of cur] have "as = []" by simp
      with q None True show ?thesis by simp
    next
      case (Some c)
      with True as static[of cur] have m: "map (urljoin env cur) (soup_hrefs env c) = map Some as"
        by simp
      from map_Some_eq_iff[OF m] have "set as = {v. \<exists>h\<in>set (soup_hrefs env c). urljoin env cur h = Some v}"
        by auto
      with q Some True show ?thesis by auto
    qed
  qed
qed

subsection \<open>Termination on a finite set of URLs\<close>

lemma crawl_loop_terminates:
  fixes env :: "'w env" and U :: "string set"
  assumes static: "\<And>u w. fst (requests_get env u w) = web u"
    and fin: "finite U"
    and parse: "\<And>u. u \<in> U \<Longrightarrow> urlparse_netloc env u \<noteq> None"
    and closed: "\<And>u content href. u \<in> U \<Longrightarrow> in_scope env base u \<Longrightarrow> web u = Some content \<Longrightarrow>
                   href \<in> set (soup_hrefs env content) \<Longrightarrow> \<exists>v\<in>U. urljoin env u href = Some v"
  shows "visited l \<subseteq> U \<Longrightarrow> set (queue l) \<subseteq> Some ` U \<Longrightarrow>
         \<exists>ds g1. crawl_loop env base r t l g = Some (Inr ds, g1)"
proof -
  define m where
    "m = measures [\<lambda>l::crawl_locals. card (U - visited l), \<lambda>l. length (queue l)]"
  have wf: "wf m" by (simp add: m_def)
  show "visited l \<subseteq> U \<Longrightarrow> set (queue l) \<subseteq> Some ` U \<Longrightarrow>
         \<exists>ds g1. crawl_loop env base r t l g = Some (Inr ds, g1)"
  proof (induction l arbitrary: g rule: wf_induct_rule[OF wf])
    case (1 l)
    show ?case
    proof (cases "queue l")
      case Nil
      then show ?thesis by (simp add: crawl_loop_Nil)
    next
      case (Cons x rest)
      with 1(3) obtain cur where x: "x = Some cur" and cu: "cur \<in> U" by auto
      from Cons 1(3) have ru: "set rest \<subseteq> Some ` U" by auto
      from Cons x have q: "queue l = Some cur # rest" by simp
      let ?l = "l\<lparr>queue := rest\<rparr>"
      have "\<exists>l1 g1. crawl_body env base r t cur ?l g = (Inr l1, g1)"
      proof (rule crawl_body_total[where web = web])
        show "fst (requests_get env u w) = web u" for u w by (rule static)
        show "cur \<in> visited ?l \<or> ignored cur \<or> urlparse_netloc env cur \<noteq> None"
          using parse[OF cu] by simp
        show "urljoin env cur href \<noteq> None"
          if "in_scope env base cur" "web cur = Some content" "href \<in> set (soup_hrefs env content)"
          for content href
          using closed[OF cu that] by auto
      qed
      then obtain l1 g1 where b: "crawl_body env base r t cur ?l g = (Inr l1, g1)" by blast
      have v1: "visited l1 = (if in_scope env base cur then insert cur (visited l) else visited l)"
        using crawl_body_Inr(1)[OF b] by simp
      with 1(2) cu have vU: "visited l1 \<subseteq> U" by auto
      have qs: "set (queue l1) = set rest \<union> Some `
           (if cur \<notin> visited l \<and> in_scope env base cur \<and> r
            then {v. v \<notin> insert cur (visited l) \<and>
                     (\<exists>c. web cur = Some c \<and> (\<exists>h\<in>set (soup_hrefs env c). urljoin env cur h = Some v))}
            else {})"
        using crawl_body_static_queue(1)[OF static b] by simp
      have qU: "set (queue l1) \<subseteq> Some ` U"
      proof
        fix y assume "y \<in> set (queue l1)"
        with qs consider "y \<in> set rest"
          | v c h where "y = Some v" "in_scope env base cur" "web cur = Some c"
              "h \<in> set (soup_hrefs env c)" "urljoin env cur h = Some v"
          by (auto split: if_splits)
        then show "y \<in> Some ` U"
        proof cases
          case 1
          with ru show ?thesis by auto
        next
          case 2
          from closed[OF cu 2(2,3,4)] 2(1,5) show ?thesis by auto
        qed
      qed
      have less: "(l1, l) \<in> m"
      proof (cases "cur \<notin> visited l \<and> in_scope env base cur")
        case True
        with v1 have e: "U - visited l1 = (U - visited l) - {cur}" by auto
        from True cu have i: "cur \<in> U - visited l" by simp
        from fin have "finite (U - visited l)" by simp
        from card_Diff1_less[OF this i] e
        have "card (U - visited l1) < card (U - visited l)" by simp
        then show ?thesis by (simp add: m_def)
      next
        case False
        with v1 have "visited l1 = visited l" by (auto simp: insert_absorb)
        moreover from False crawl_body_static_queue(3)[OF static b] have "queue l1 = rest" by auto
        ultimately show ?thesis using q by (simp add: m_def)
      qed
      from 1(1)[OF less vU qU, of g1] b q show ?thesis
        by (simp add: crawl_loop_Cons_Inr[OF q b])
    qed
  qed
qed

subsection \<open>The documents are the reachable pages\<close>

lemma reach_invD:
  assumes "reach_inv env web base r urls l"
  shows "visited l \<subseteq> crawl_reach env web base r urls"
    and "\<And>u. u \<in> visited l \<Longrightarrow> in_scope env base u"
    and "set (queue l) \<subseteq> Some ` crawl_reach env web base r urls"
    and "\<And>u. u \<in> set urls \<Longrightarrow> u \<in> visited l \<or> Some u \<in> set (queue l) \<or> \<not> in_scope env base u"
    and "\<And>u c h v. r \<Longrightarrow> u \<in> visited l \<Longrightarrow> web u = Some c \<Longrightarrow> h \<in> set (soup_hrefs env c) \<Longrightarrow>
           urljoin env u h = Some v \<Longrightarrow>
           v \<in> visited l \<or> Some v \<in> set (queue l) \<or> \<not> in_scope env base v"
    and "distinct (map doc_url (documents l))"
    and "set (map doc_url (documents l)) = Some ` {u \<in> visited l. web u \<noteq> None}"
proof -
  from assms have
    1: "visited l \<subseteq> {u \<in> crawl_reach env web base r urls. in_scope env base u}" and
    2: "set (queue l) \<subseteq> Some ` crawl_reach env web base r urls" and
    3: "\<forall>u\<in>set urls. u \<in> visited l \<or> Some u \<in> set (queue l) \<or> \<not> in_scope env base u" and
    4: "r \<longrightarrow> (\<forall>u\<in>visited l. \<forall>c h v. web u = Some c \<longrightarrow> h \<in> set (soup_hrefs env c) \<longrightarrow>
              urljoin env u h = Some v \<longrightarrow>
              v \<in> visited l \<or> Some v \<in> set (queue l) \<or> \<not> in_scope env base v)" and
    5: "distinct (map doc_url (documents l))" and
    6: "set (map doc_url (documents l)) = Some ` {u \<in> visited l. web u \<noteq> None}"
    unfolding reach_inv_def by simp_all
  from 1 show "visited l \<subseteq> crawl_reach env web base r urls" by blast
  from 1 show "\<And>u. u \<in> visited l \<Longrightarrow> in_scope env base u" by blast
  from 2 show "set (queue l) \<subseteq> Some ` crawl_reach env web base r urls" .
  from 3 show "\<And>u. u \<in> set urls \<Longrightarrow> u \<in> visited l \<or> Some u \<in> set (queue l) \<or> \<not> in_scope env base u"
    by blast
  from 4 show "\<And>u c h v. r \<Longrightarrow> u \<in> visited l \<Longrightarrow> web u = Some c \<Longrightarrow> h \<in> set (soup_hrefs env c) \<Longrightarrow>
           urljoin env u h = Some v \<Longrightarrow>
           v \<in> visited l \<or> Some v \<in> set (queue l) \<or> \<not> in_scope env base v"
    by blast
  from 5 show "distinct (map doc_url (documents l))" .
  from 6 show "set (map doc_url (documents l)) = Some ` {u \<in> visited l. web u \<noteq> None}" .
qed

lemma reach_invI:
  assumes 1: "visited l \<subseteq> crawl_reach env web base r urls"
    and 2: "\<And>u. u \<in> visited l \<Longrightarrow> in_scope env base u"
    and 3: "set (queue l) \<subseteq> Some ` crawl_reach env web base r urls"
    and 4: "\<And>u. u \<in> set urls \<Longrightarrow> u \<in> visited l \<or> Some u \<in> set (queue l) \<or> \<not> in_scope env base u"
    and 5: "\<And>u c h v. r \<Longrightarrow> u \<in> visited l \<Longrightarrow> web u = Some c \<Longrightarrow> h \<in> set (soup_hrefs env c) \<Longrightarrow>
           urljoin env u h = Some v \<Longrightarrow>
           v \<in> visited l \<or> Some v \<in> set (queue l) \<or> \<not> in_scope env base v"
    and 6: "distinct (map doc_url (documents l))"
    and 7: "set (map doc_url (documents l)) = Some ` {u \<in> visited l. web u \<noteq> None}"
  shows "reach_inv env web base r urls l"
  unfolding reach_inv_def
proof (intro conjI)
  from 1 2 show "visited l \<subseteq> {u \<in> crawl_reach env web base r urls. in_scope env base u}"
    by blast
  from 3 show "set (queue l) \<subseteq> Some ` crawl_reach env web base r urls" .
  from 4 show "\<forall>u\<in>set urls. u \<in> visited l \<or> Some u \<in> set (queue l) \<or> \<not> in_scope env base u"
    by blast
  from 5 show "r \<longrightarrow> (\<forall>u\<in>visited l. \<forall>c h v. web u = Some c \<longrightarrow> h \<in> set (soup_hrefs env c) \<longrightarrow>
              urljoin env u h = Some v \<longrightarrow>
              v \<in> visited l \<or> Some v \<in> set (queue l) \<or> \<not> in_scope env base v)"
    by blast
  from 6 show "distinct (map doc_url (documents l))" .
  from 7 show "set (map doc_url (documents l)) = Some ` {u \<in> visited l. web u \<noteq> None}" .
qed

lemma reach_inv_init:
  "reach_inv env web base r urls \<lparr>visited = {}, documents = [], queue = map Some urls\<rparr>"
  by (rule reach_invI) (auto intro: crawl_reach.seed)

lemma reach_inv_skip:
  fixes env :: "'w env"
  assumes static: "\<And>u w. fst (requests_get env u w) = web u"
    and inv: "reach_inv env web base r urls l" and q: "queue l = Some cur # rest"
    and b: "crawl_body env base r t cur (l\<lparr>queue := rest\<rparr>) g = (Inr l1, g1)"
    and c: "cur \<in> visited l \<or> \<not> in_scope env base cur"
  shows "reach_inv env web base r urls l1"
proof -
  note D = reach_invD[OF inv]
  have v1: "visited l1 = visited l"
    using crawl_body_Inr(1)[OF b] c D(2) by (auto simp: insert_absorb)
  have d1: "documents l1 = documents l"
    using crawl_body_Inr(2)[OF b] c by auto
  have q1: "queue l1 = rest"
    using crawl_body_static_queue(3)[OF static b] c by auto
  have qs: "set (queue l) = insert (Some cur) (set rest)" using q by simp
  show ?thesis
  proof (rule reach_invI)
    show "visited l1 \<subseteq> crawl_reach env web base r urls" using D(1) v1 by simp
    show "in_scope env base u" if "u \<in> visited l1" for u using D(2) that v1 by simp
    show "set (queue l1) \<subseteq> Some ` crawl_reach env web base r urls" using D(3) qs q1 by auto
    show "u \<in> visited l1 \<or> Some u \<in> set (queue l1) \<or> \<not> in_scope env base u" if "u \<in> set urls" for u
      using D(4)[OF that] c qs unfolding v1 q1 by auto
    show "v \<in> visited l1 \<or> Some v \<in> set (queue l1) \<or> \<not> in_scope env base v"
      if "r" "u \<in> visited l1" "web u = Some c" "h \<in> set (soup_hrefs env c)" "urljoin env u h = Some v"
      for u c h v
    proof -
      from that(2) have "u \<in> visited l" by (simp add: v1)
      from D(5)[OF that(1) this that(3,4,5)] c qs show ?thesis unfolding v1 q1 by auto
    qed
    show "distinct (map doc_url (documents l1))" using D(6) d1 by simp
    show "set (map doc_url (documents l1)) = Some ` {u \<in> visited l1. web u \<noteq> None}"
      using D(7) unfolding d1 v1 .
  qed
qed

lemma reach_inv_visit:
  fixes env :: "'w env"
  assumes static: "\<And>u w. fst (requests_get env u w) = web u"
    and inv: "reach_inv env web base r urls l" and q: "queue l = Some cur # rest"
    and b: "crawl_body env base r t cur (l\<lparr>queue := rest\<rparr>) g = (Inr l1, g1)"
    and nv: "cur \<notin> visited l" and sc: "in_scope env base cur"
  shows "reach_inv env web base r urls l1"
proof -
  note D = reach_invD[OF inv]
  have qs: "set (queue l) = insert (Some cur) (set rest)" using q by simp
  from D(3) qs have cr: "cur \<in> crawl_reach env web base r urls" by auto
  have v1: "visited l1 = insert cur (visited l)"
    using crawl_body_Inr(1)[OF b] sc by simp
  have d1: "documents l1 = documents l @
              (case fst (process_url env cur t g) of None \<Rightarrow> [] | Some d \<Rightarrow> [d])"
    using crawl_body_Inr(2)[OF b] nv sc by auto
  have q1: "set (queue l1) = set rest \<union> Some `
           (if r then {v. v \<notin> insert cur (visited l) \<and>
                     (\<exists>c. web cur = Some c \<and> (\<exists>h\<in>set (soup_hrefs env c). urljoin env cur h = Some v))}
            else {})"
    using crawl_body_static_queue(1)[OF static b] nv sc by simp
  have dn: "Some cur \<notin> set (map doc_url (documents l))"
    using D(7) nv by auto
  show ?thesis
  proof (rule reach_invI)
    show "visited l1 \<subseteq> crawl_reach env web base r urls" using D(1) cr v1 by simp
    show "in_scope env base u" if "u \<in> visited l1" for u using D(2) that v1 sc by auto
    show "set (queue l1) \<subseteq> Some ` crawl_reach env web base r urls"
    proof
      fix y assume "y \<in> set (queue l1)"
      with q1 consider "y \<in> set rest"
        | v c h where "y = Some v" "r" "web cur = Some c" "h \<in> set (soup_hrefs env c)"
            "urljoin env cur h = Some v"
        by (auto split: if_splits)
      then show "y \<in> Some ` crawl_reach env web base r urls"
      proof cases
        case 1
        with D(3) qs show ?thesis by auto
      next
        case 2
        from crawl_reach.link[OF cr sc 2(2,3,4,5)] 2(1) show ?thesis by simp
      qed
    qed
    show "u \<in> visited l1 \<or> Some u \<in> set (queue l1) \<or> \<not> in_scope env base u" if "u \<in> set urls" for u
      using D(4)[OF that] qs unfolding v1 q1 by auto
    show "v \<in> visited l1 \<or> Some v \<in> set (queue l1) \<or> \<not> in_scope env base v"
      if r: "r" and u: "u \<in> visited l1" and w: "web u = Some c" and h: "h \<in> set (soup_hrefs env c)"
        and j: "urljoin env u h = Some v"
      for u c h v
    proof (cases "u = cur")
      case True
      with r w h j show ?thesis unfolding v1 q1 by auto
    next
      case False
      with u have "u \<in> visited l" by (simp add: v1)
      from D(5)[OF r this w h j] qs show ?thesis unfolding v1 q1 by auto
    qed
    show "distinct (map doc_url (documents l1))"
    proof (cases "fst (process_url env cur t g)")
      case None
      with D(6) show ?thesis by (simp add: d1)
    next
      case (Some d)
      from process_url_fst_doc_url[OF Some] dn D(6) Some show ?thesis
        by (simp add: d1)
    qed
    show "set (map doc_url (documents l1)) = Some ` {u \<in> visited l1. web u \<noteq> None}"
    proof (cases "fst (process_url env cur t g)")
      case None
      with process_url_static[OF static, of cur t g] have wn: "web cur = None" by simp
      then have "{u \<in> insert cur (visited l). web u \<noteq> None} = {u \<in> visited l. web u \<noteq> None}"
        by auto
      with D(7) None show ?thesis by (simp add: d1 v1)
    next
      case (Some d)
      with process_url_static[OF static, of cur t g] have wn: "web cur \<noteq> None" by simp
      then have "{u \<in> insert cur (visited l). web u \<noteq> None} =
                 insert cur {u \<in> visited l. web u \<noteq> None}"
        by auto
      with process_url_fst_doc_url[OF Some] D(7) Some show ?thesis
        by (simp add: d1 v1)
    qed
  qed
qed

lemma reach_inv_step:
  fixes env :: "'w env"
  assumes static: "\<And>u w. fst (requests_get env u w) = web u"
    and inv: "reach_inv env web base r urls l" and q: "queue l = Some cur # rest"
    and b: "crawl_body env base r t cur (l\<lparr>queue := rest\<rparr>) g = (Inr l1, g1)"
  shows "reach_inv env web base r urls l1"
proof (cases "cur \<notin> visited l \<and> in_scope env base cur")
  case True
  then show ?thesis using reach_inv_visit[OF static inv q b] by blast
next
  case False
  then show ?thesis using reach_inv_skip[OF static inv q b] by blast
qed

lemma reach_inv_final:
  assumes inv: "reach_inv env web base r urls l" and q: "queue l = []"
  shows "visited l = {u \<in> crawl_reach env web base r urls. in_scope env base u}"
proof -
  note D = reach_invD[OF inv]
  have "in_scope env base u \<longrightarrow> u \<in> visited l" if "u \<in> crawl_reach env web base r urls" for u
    using that
  proof (induction rule: crawl_reach.induct)
    case (seed u)
    from D(4)[OF seed] q show ?case by auto
  next
    case (link u content href v)
    then have "u \<in> visited l" by simp
    from D(5)[OF link(3) this link(4,5,6)] q show ?case by auto
  qed
  with D(1,2) show ?thesis by blast
qed

lemma crawl_loop_reach:
  fixes env :: "'w env"
  assumes static: "\<And>u w. fst (requests_get env u w) = web u"
    and loop: "crawl_loop env base r t \<lparr>visited = {}, documents = [], queue = map Some urls\<rparr> g =
                 Some (Inr docs, g1)"
  shows "distinct (map doc_url docs) \<and>
         set (map doc_url docs) =
           Some ` {u \<in> crawl_reach env web base r urls. in_scope env base u \<and> web u \<noteq> None}"
proof -
  let ?inv = "\<lambda>l (g::'w glob). reach_inv env web base r urls l"
  let ?post = "\<lambda>(res::py_error + document list) (gf::'w glob). \<forall>ds. res = Inr ds \<longrightarrow>
      distinct (map doc_url ds) \<and>
      set (map doc_url ds) =
        Some ` {u \<in> crawl_reach env web base r urls. in_scope env base u \<and> web u \<noteq> None}"
  have "?post (Inr docs) g1"
  proof (rule crawl_loop_rule[where I = ?inv and R = ?post, OF loop reach_inv_init])
    fix l g cur rest l1 g1
    assume "?inv l g" "queue l = Some cur # rest"
      "crawl_body env base r t cur (l\<lparr>queue := rest\<rparr>) g = (Inr l1, g1)"
    then show "?inv l1 g1" by (rule reach_inv_step[OF static])
  next
    fix l :: crawl_locals and g :: "'w glob"
    assume inv: "?inv l g" and q: "queue l = []"
    from reach_inv_final[OF inv q]
    have "{u \<in> visited l. web u \<noteq> None} =
          {u \<in> crawl_reach env web base r urls. in_scope env base u \<and> web u \<noteq> None}"
      by auto
    with reach_invD(6,7)[OF inv] show "?post (Inr (documents l)) g" by simp
  next
    fix e :: py_error and g1 :: "'w glob"
    show "?post (Inl e) g1" by simp
  next
    fix g :: "'w glob"
    show "?post (Inl TypeError) g" by simp
  qed
  then show ?thesis by simp
qed

subsection \<open>Failed fetches\<close>




subsection \<open>Where the documents come from\<close>

lemma doc_text_Document [simp]: "doc_text (Document p u) = p"
  by (simp add: Document_def)

lemma process_url_untranslated:
  assumes fails: "\<And>p g'. translation_fails env p lang g'"
    and d: "fst (process_url env u (Some lang) g) = Some d"
  shows "\<exists>content w. requests_get env u (world g) = (Some content, w) \<and>
           doc_text d = soup_get_text env content \<and> doc_url d = Some u"
proof -
  obtain resp w where get: "requests_get env u (world g) = (resp, w)"
    by (cases "requests_get env u (world g)")
  with d obtain content where c: "resp = Some content"
    by (cases resp) (auto simp: process_url_def)
  have "fst (translate_text env (soup_get_text env content) lang
               (g\<lparr>world := w, trace := trace g @ [ContentGet u]\<rparr>)) = soup_get_text env content"
    by (rule translate_text_fails[OF fails])
  with d get c have "d = Document (soup_get_text env content) u"
    by (auto simp: process_url_def Let_def split: prod.splits if_splits)
  with get c show ?thesis by simp
qed

lemma crawl_body_visited_documents:
  assumes b: "crawl_body env base r t cur l g = (Inr l1, g1)"
    and a: "cur \<notin> visited l" "in_scope env base cur"
  shows "visited l1 = insert cur (visited l)"
    and "documents l1 = documents l @ (case fst (process_url env cur t g) of None \<Rightarrow> [] | Some d \<Rightarrow> [d])"
  using crawl_body_Inr(1,2)[OF b] a by auto

lemma crawl_and_scrape_documents:
  fixes env :: "'w env"
  assumes run: "crawl_and_scrape env urls r t g = Some (Inr docs, g1)"
    and d: "d \<in> set docs"
  shows "\<exists>u g'. fst (process_url env u t g') = Some d"
proof -
  from run obtain first_url others base where
    urls: "urls = Some first_url # others" and base: "urlparse_netloc env first_url = Some base"
    by (auto simp: crawl_and_scrape_def split: list.splits option.splits)
  from run urls base
  have loop: "crawl_loop env base r t \<lparr>visited = {}, documents = [], queue = urls\<rparr> g =
                Some (Inr docs, g1)"
    by (simp add: crawl_and_scrape_def)
  let ?inv = "\<lambda>l (g::'w glob). \<forall>d\<in>set (documents l). \<exists>u g'. fst (process_url env u t g') = Some d"
  let ?post = "\<lambda>(res::py_error + document list) (gf::'w glob). \<forall>ds. res = Inr ds \<longrightarrow>
              (\<forall>d\<in>set ds. \<exists>u g'. fst (process_url env u t g') = Some d)"
  have "?post (Inr docs) g1"
  proof (rule crawl_loop_rule[where I = ?inv and R = ?post, OF loop])
    show "?inv \<lparr>visited = {}, documents = [], queue = urls\<rparr> g" by simp
  next
    fix l g cur rest l1 g1
    assume inv: "?inv l g" and "queue l = Some cur # rest"
      and b: "crawl_body env base r t cur (l\<lparr>queue := rest\<rparr>) g = (Inr l1, g1)"
    show "?inv l1 g1"
    proof
      fix d assume "d \<in> set (documents l1)"
      moreover from crawl_body_Inr(2)[OF b] obtain ds where
        "documents l1 = documents l @ ds"
        "ds = [] \<or> ds = (case fst (process_url env cur t g) of None \<Rightarrow> [] | Some d \<Rightarrow> [d])"
        by (cases "cur \<notin> visited l \<and> in_scope env base cur") auto
      ultimately have "d \<in> set (documents l) \<or> fst (process_url env cur t g) = Some d"
        by (cases "fst (process_url env cur t g)") auto
      with inv show "\<exists>u g'. fst (process_url env u t g') = Some d" by auto
    qed
  next
    fix l g
    assume "?inv l g" "queue l = []"
    then show "?post (Inr (documents l)) g" by simp
  next
    fix e g1
    show "?post (Inl e) g1" by simp
  next
    fix g :: "'w glob"
    show "?post (Inl TypeError) g" by simp
  qed
  with d show ?thesis by simp
qed

subsection \<open>How a crawl can raise\<close>

lemma enqueue_links_Inl_cause:
  "enqueue_links env cur vis hs q = Inl e \<Longrightarrow> e = ValueError \<and> (\<exists>h\<in>set hs. urljoin env cur h = None)"
  by (induction hs arbitrary: q) (auto split: option.splits)

lemma crawl_body_Inl:
  assumes "crawl_body env base r t cur l g = (Inl e, g1)"
  shows "e = ValueError \<and>
         (urlparse_netloc env cur = None \<or> (r \<and> (\<exists>h. urljoin env cur h = None)))"
  using assms
  by (auto simp: crawl_body_def Let_def
           split: if_splits option.splits prod.splits sum.splits
           dest!: enqueue_links_Inl_cause)

lemma crawl_and_scrape_raises:
  fixes env :: "'w env"
  assumes run: "crawl_and_scrape env urls r t g = Some (Inl e, g1)"
  shows "(e = IndexError \<and> urls = []) \<or> (e = TypeError \<and> None \<in> set urls) \<or>
         (e = ValueError \<and>
            ((\<exists>v. urlparse_netloc env v = None) \<or> (r \<and> (\<exists>v h. urljoin env v h = None))))"
proof (cases urls)
  case Nil
  with run show ?thesis by (simp add: crawl_and_scrape_def)
next
  case (Cons x others)
  show ?thesis
  proof (cases x)
    case None
    with run Cons show ?thesis by (simp add: crawl_and_scrape_def)
  next
    case (Some first_url)
    show ?thesis
    proof (cases "urlparse_netloc env first_url")
      case None
      with run Cons Some show ?thesis by (auto simp: crawl_and_scrape_def)
    next
      case (Some base)
      with run Cons \<open>x = Some first_url\<close>
      have loop: "crawl_loop env base r t \<lparr>visited = {}, documents = [], queue = urls\<rparr> g =
                    Some (Inl e, g1)"
        by (simp add: crawl_and_scrape_def)
      let ?inv = "\<lambda>l (g::'w glob). None \<in> set (queue l) \<longrightarrow> None \<in> set urls"
      let ?post = "\<lambda>(res::py_error + document list) (gf::'w glob). \<forall>e. res = Inl e \<longrightarrow>
              (e = TypeError \<and> None \<in> set urls) \<or>
              (e = ValueError \<and>
                 ((\<exists>v. urlparse_netloc env v = None) \<or> (r \<and> (\<exists>v h. urljoin env v h = None))))"
      have "?post (Inl e) g1"
      proof (rule crawl_loop_rule[where I = ?inv and R = ?post, OF loop])
        show "?inv \<lparr>visited = {}, documents = [], queue = urls\<rparr> g" by simp
      next
        fix l g cur rest l1 g1
        assume inv: "?inv l g" and q: "queue l = Some cur # rest"
          and b: "crawl_body env base r t cur (l\<lparr>queue := rest\<rparr>) g = (Inr l1, g1)"
        from crawl_body_Inr(3)[OF b] obtain as where
          "queue l1 = rest @ map Some (filter (\<lambda>a. a \<notin> insert cur (visited l)) as)"
          by auto
        then have "None \<in> set (queue l1) \<longrightarrow> None \<in> set rest" by auto
        with inv q show "?inv l1 g1" by simp
      next
        fix l g
        show "?post (Inr (documents l)) g" by simp
      next
        fix l g cur rest e g1
        assume "crawl_body env base r t cur (l\<lparr>queue := rest\<rparr>) g = (Inl e, g1)"
        from crawl_body_Inl[OF this] show "?post (Inl e) g1" by auto
      next
        fix l g rest
        assume "?inv l g" "queue l = None # rest"
        then show "?post (Inl TypeError) g" by simp
      qed
      then show ?thesis by simp
    qed
  qed
qed

subsection \<open>The URLs of the list are requested\<close>


subsection \<open>A crawl of a finite static web returns\<close>

lemma crawl_and_scrape_returns_on_finite_web:
  fixes env :: "'w env" and U :: "string set"
  assumes static: "\<And>u w. fst (requests_get env u w) = web u"
    and fin: "finite U" and seeds: "set urls \<subseteq> Some ` U" and ne: "urls \<noteq> []"
    and parse: "\<And>u. u \<in> U \<Longrightarrow> urlparse_netloc env u \<noteq> None"
    and closed: "\<And>u content href. u \<in> U \<Longrightarrow> web u = Some content \<Longrightarrow>
                   href \<in> set (soup_hrefs env content) \<Longrightarrow> \<exists>v\<in>U. urljoin env u href = Some v"
  shows "\<exists>docs g1. crawl_and_scrape env urls r t g = Some (Inr docs, g1)"
proof -
  from ne seeds obtain first_url others where
    urls: "urls = Some first_url # others" and f: "first_url \<in> U"
    by (cases urls) auto
  from parse[OF f] obtain b where b: "urlparse_netloc env first_url = Some b" by blast
  let ?l0 = "\<lparr>visited = {}, documents = [], queue = urls\<rparr>"
  have "\<exists>docs g1. crawl_loop env b r t ?l0 g = Some (Inr docs, g1)"
  proof (rule crawl_loop_terminates[where web = web and U = U])
    show "fst (requests_get env u w) = web u" for u w by (rule static)
    show "finite U" by (rule fin)
    show "urlparse_netloc env u \<noteq> None" if "u \<in> U" for u using that by (rule parse)
    show "\<exists>v\<in>U. urljoin env u href = Some v"
      if "u \<in> U" "in_scope env b u" "web u = Some content"
        "href \<in> set (soup_hrefs env content)" for u content href
      using that(1,3,4) by (rule closed)
    show "visited ?l0 \<subseteq> U" by simp
    show "set (queue ?l0) \<subseteq> Some ` U" using seeds by simp
  qed
  with urls b show ?thesis by (simp add: crawl_and_scrape_def)
qed

lemma demo_static: "fst (requests_get demo u w) = demo_web u"
  by (simp add: requests_get_def raise_for_status_def demo_def demo_http_def demo_web_def)

lemma demo_urls_parse: "u \<in> demo_urls \<Longrightarrow> urlparse_netloc demo u \<noteq> None"
  by (auto simp: demo_urls_def demo_def demo_netloc_def)

lemma demo_urls_closed:
  "u \<in> demo_urls \<Longrightarrow> demo_web u = Some content \<Longrightarrow> href \<in> set (soup_hrefs demo content) \<Longrightarrow>
   \<exists>v\<in>demo_urls. urljoin demo u href = Some v"
  by (auto simp: demo_urls_def demo_def demo_web_def demo_hrefs_def demo_urljoin_def
           split: if_splits)

section \<open>Properties\<close>

text \<open>
  C10. \<^verbatim>\<open>crawl_and_scrape\<close> called with an empty list of URLs raises
  \<^verbatim>\<open>IndexError\<close> at \<^verbatim>\<open>urls[0]\<close>: it does not return an empty list of documents,
  no request is issued, and nothing in the function checks that the list is non-empty.
\<close>

theorem crawl_and_scrape_empty_IndexError:
  "crawl_and_scrape env [] recursive translate_to g = Some (Inl IndexError, g)"
  by (simp add: crawl_and_scrape_def)

text \<open>
  C2. A run of \<^verbatim>\<open>crawl_and_scrape\<close> that returns documents was given a non-empty
  list of URLs; every returned document carries a URL whose host is the host of the first
  URL of that list, whatever the pages link to; and no two returned documents carry the
  same URL. The URL of a document is the string the crawler dequeued (a seed, or a link
  resolved by \<^verbatim>\<open>urljoin\<close>); the code applies no other normalisation.
\<close>

theorem crawl_and_scrape_same_host_no_duplicates:
  fixes env :: "'w env"
  assumes run: "crawl_and_scrape env urls recursive translate_to g = Some (Inr docs, g1)"
  shows "\<exists>first_url others base_domain.
           urls = Some first_url # others \<and> urlparse_netloc env first_url = Some base_domain \<and>
           (\<forall>d\<in>set docs. \<exists>u. doc_url d = Some u \<and> urlparse_netloc env u = Some base_domain) \<and>
           distinct (map doc_url docs)"
proof -
  from run obtain x others where urls0: "urls = x # others"
    by (cases urls) (auto simp: crawl_and_scrape_def)
  from run urls0 obtain first_url where x: "x = Some first_url"
    by (cases x) (auto simp: crawl_and_scrape_def)
  from urls0 x have urls: "urls = Some first_url # others" by simp
  from run urls obtain base where base: "urlparse_netloc env first_url = Some base"
    by (cases "urlparse_netloc env first_url") (auto simp: crawl_and_scrape_def)
  from run urls base
  have loop: "crawl_loop env base recursive translate_to
                \<lparr>visited = {}, documents = [], queue = urls\<rparr> g = Some (Inr docs, g1)"
    by (simp add: crawl_and_scrape_def)
  let ?inv = "\<lambda>l (g::'w glob). docs_inv env base l"
  let ?post = "\<lambda>(res::py_error + document list) (gf::'w glob). \<forall>ds. res = Inr ds \<longrightarrow>
              (\<forall>d\<in>set ds. \<exists>u. doc_url d = Some u \<and> urlparse_netloc env u = Some base) \<and>
              distinct (map doc_url ds)"
  have init: "?inv \<lparr>visited = {}, documents = [], queue = urls\<rparr> g"
    by (simp add: docs_inv_def)
  have pres: "?inv l1 g1" if "?inv l g" "queue l = Some cur # rest"
      "crawl_body env base recursive translate_to cur (l\<lparr>queue := rest\<rparr>) g = (Inr l1, g1)"
    for l g cur rest l1 g1
    using that by (rule docs_inv_step)
  have fin: "?post (Inr (documents l)) g" if "?inv l g" "queue l = []" for l g
    using that by (fastforce simp: docs_inv_def)
  have err: "?post (Inl e) g1" for e :: py_error and g1 :: "'w glob"
    by simp
  have "?post (Inr docs) g1"
  proof (rule crawl_loop_rule[where I = ?inv and R = ?post, OF loop init])
    fix l g cur rest l1 g1
    assume "?inv l g" "queue l = Some cur # rest"
      "crawl_body env base recursive translate_to cur (l\<lparr>queue := rest\<rparr>) g = (Inr l1, g1)"
    then show "?inv l1 g1" by (rule pres)
  next
    fix l g
    assume "?inv l g" "queue l = []"
    then show "?post (Inr (documents l)) g" by (rule fin)
  next
    fix e g1
    show "?post (Inl e) g1" by (rule err)
  next
    fix g :: "'w glob"
    show "?post (Inl TypeError) g" by (rule err)
  qed
  with urls base show ?thesis by auto
qed

theorem crawl_and_scrape_same_host_no_duplicates_witness:
  "urlparse_netloc demo ''https://example.com/docs'' = Some ''example.com'' \<and>
   map doc_url demo_docs = [Some ''https://example.com/docs'', Some ''https://example.com/docs/a''] \<and>
   urlparse_netloc demo ''https://example.com/docs/a'' = Some ''example.com'' \<and>
   distinct (map doc_url demo_docs)"
proof -
  from crawl_and_scrape_same_host_no_duplicates[OF demo_run]
  have "distinct (map doc_url demo_docs)" by blast
  moreover have "urlparse_netloc demo ''https://example.com/docs'' = Some ''example.com''"
    "map doc_url demo_docs = [Some ''https://example.com/docs'', Some ''https://example.com/docs/a'']"
    "urlparse_netloc demo ''https://example.com/docs/a'' = Some ''example.com''"
    by code_simp+
  ultimately show ?thesis by blast
qed

text \<open>
  C3. In every run of \<^verbatim>\<open>crawl_and_scrape\<close> that ends, by returning or by raising,
  the requests it issued contain no URL twice among the content requests of
  \<^verbatim>\<open>process_url\<close>, however often the URL was enqueued, and no URL twice among
  the second requests that harvest links.
\<close>

theorem crawl_and_scrape_fetches_once:
  assumes "crawl_and_scrape env urls recursive translate_to g = Some (res, g1)"
  shows "\<exists>new. trace g1 = trace g @ new \<and>
           distinct (content_requests new) \<and> distinct (links_requests new)"
proof -
  from crawl_and_scrape_trace[OF assms] obtain base vis new where
    "trace g1 = trace g @ new" "trace_ok env base recursive urls vis new"
    by (auto simp: trace_post_def)
  then show ?thesis by (auto simp: trace_ok_def)
qed

theorem crawl_and_scrape_fetches_once_witness:
  "distinct (content_requests demo_trace) \<and> distinct (links_requests demo_trace)"
proof -
  from crawl_and_scrape_fetches_once[OF demo_run] obtain new where
    "trace (g0\<lparr>trace := demo_trace\<rparr>) = trace g0 @ new"
    "distinct (content_requests new)" "distinct (links_requests new)"
    by blast
  then show ?thesis by (simp add: g0_def)
qed

text \<open>
  C6. A URL that contains one of the ignore patterns is never requested by a run of
  \<^verbatim>\<open>crawl_and_scrape\<close>, neither for content nor for links: the test at dequeue
  time comes before any request for it.
\<close>

theorem crawl_and_scrape_ignored_never_fetched:
  assumes "pattern \<in> set IGNORE_PATTERNS" and "sublist pattern u"
    and "crawl_and_scrape env urls recursive translate_to g = Some (res, g1)"
  shows "\<exists>new. trace g1 = trace g @ new \<and> u \<notin> request_url ` set new"
proof -
  from assms(1,2) have ig: "ignored u" by (auto simp: ignored_def list_ex_iff)
  from crawl_and_scrape_trace[OF assms(3)] obtain base vis new where
    n: "trace g1 = trace g @ new" "trace_ok env base recursive urls vis new"
    by (auto simp: trace_post_def)
  from n(2) have "\<forall>e\<in>set new. in_scope env base (request_url e)" by (auto simp: trace_ok_def)
  with ig have "u \<notin> request_url ` set new" by (auto simp: in_scope_def)
  with n(1) show ?thesis by blast
qed

theorem crawl_and_scrape_ignored_never_fetched_witness:
  "''/login'' \<in> set IGNORE_PATTERNS \<and> sublist ''/login'' ''https://example.com/login'' \<and>
   ''https://example.com/login'' \<notin> request_url ` set demo_trace"
proof -
  have p: "''/login'' \<in> set IGNORE_PATTERNS" by (simp add: IGNORE_PATTERNS_def)
  have s: "sublist ''/login'' ''https://example.com/login''" by code_simp
  from crawl_and_scrape_ignored_never_fetched[OF p s demo_run] obtain new where
    "trace (g0\<lparr>trace := demo_trace\<rparr>) = trace g0 @ new"
    "''https://example.com/login'' \<notin> request_url ` set new"
    by blast
  then have "''https://example.com/login'' \<notin> request_url ` set demo_trace"
    by (simp add: g0_def)
  with p s show ?thesis by blast
qed

text \<open>
  C7. When the translation fails, because no client can be created or because the call on
  the client raises, \<^verbatim>\<open>translate_text\<close> returns the text it was given, for every
  text. \<^verbatim>\<open>process_url\<close> then returns a document whose text is exactly the extracted
  text of the page, and the iteration of the crawl loop on that URL appends this document;
  with link following, the iteration raises only when \<^verbatim>\<open>urljoin\<close> raises on a
  link. When every translation fails, every document that \<^verbatim>\<open>crawl_and_scrape\<close>
  returns, with or without link following, has as its text the extracted text of a response
  to a request for its URL. A crawl with translation that ends with an exception ends with
  the \<^verbatim>\<open>IndexError\<close> of an empty list, the \<^verbatim>\<open>TypeError\<close> of a
  \<^verbatim>\<open>None\<close> entry, or a \<^verbatim>\<open>ValueError\<close> of \<^verbatim>\<open>urlparse\<close> or
  \<^verbatim>\<open>urljoin\<close>, never with an exception of the translation. Without link following the
  crawl always ends; with or without it, the crawl returns its documents on a web that
  answers every request for a URL in the same way and has a finite set of URLs that contains
  the list and the resolved links of its pages, and on which \<^verbatim>\<open>urlparse\<close> does not
  raise.
\<close>

theorem translation_failure_keeps_text:
  fixes env :: "'w env"
  shows
  "(translation_fails env page_text lang g \<longrightarrow>
      fst (translate_text env page_text lang g) = page_text) \<and>
   (requests_get env u (world g) = (Some content, w) \<and> lang \<noteq> [] \<and>
    translation_fails env (soup_get_text env content) lang
      (g\<lparr>world := w, trace := trace g @ [ContentGet u]\<rparr>) \<longrightarrow>
      (\<exists>d. fst (process_url env u (Some lang) g) = Some d \<and>
           doc_text d = soup_get_text env content \<and> doc_url d = Some u \<and>
           (u \<notin> visited l \<and> in_scope env base_domain u \<longrightarrow>
              (\<forall>l1 ga. crawl_body env base_domain recursive (Some lang) u l g = (Inr l1, ga) \<longrightarrow>
                 visited l1 = insert u (visited l) \<and> documents l1 = documents l @ [d]) \<and>
              (\<forall>e ga. crawl_body env base_domain recursive (Some lang) u l g = (Inl e, ga) \<longrightarrow>
                 recursive \<and> e = ValueError \<and> (\<exists>href. urljoin env u href = None))))) \<and>
   ((\<forall>p ga. translation_fails env p lang ga) \<and>
    crawl_and_scrape env urls recursive (Some lang) g = Some (Inr docs, g1) \<longrightarrow>
      (\<forall>d\<in>set docs. \<exists>v wa c wb. doc_url d = Some v \<and> requests_get env v wa = (Some c, wb) \<and>
                        doc_text d = soup_get_text env c)) \<and>
   (crawl_and_scrape env urls recursive (Some lang) g = Some (Inl err, g2) \<longrightarrow>
      (err = IndexError \<and> urls = []) \<or> (err = TypeError \<and> None \<in> set urls) \<or>
      (err = ValueError \<and>
         ((\<exists>v. urlparse_netloc env v = None) \<or>
          (recursive \<and> (\<exists>v href. urljoin env v href = None))))) \<and>
   (\<exists>res g3. crawl_and_scrape env urls False (Some lang) g = Some (res, g3)) \<and>
   (finite U \<and> set urls \<subseteq> Some ` U \<and> urls \<noteq> [] \<and>
    (\<forall>v wa. fst (requests_get env v wa) = web v) \<and>
    (\<forall>v\<in>U. urlparse_netloc env v \<noteq> None) \<and>
    (\<forall>v\<in>U. \<forall>c href. web v = Some c \<and> href \<in> set (soup_hrefs env c) \<longrightarrow>
              (\<exists>x\<in>U. urljoin env v href = Some x)) \<longrightarrow>
      (\<exists>ds g4. crawl_and_scrape env urls recursive (Some lang) g = Some (Inr ds, g4)))"
proof (intro conjI impI)
  assume "translation_fails env page_text lang g"
  then show "fst (translate_text env page_text lang g) = page_text"
    by (rule translate_text_fails)
next
  assume a: "requests_get env u (world g) = (Some content, w) \<and> lang \<noteq> [] \<and>
    translation_fails env (soup_get_text env content) lang
      (g\<lparr>world := w, trace := trace g @ [ContentGet u]\<rparr>)"
  let ?d = "Document (soup_get_text env content) u"
  from a have p: "fst (process_url env u (Some lang) g) = Some ?d"
    by (intro process_url_translation_fails) auto
  have body: "(\<forall>l1 ga. crawl_body env base_domain recursive (Some lang) u l g = (Inr l1, ga) \<longrightarrow>
                 visited l1 = insert u (visited l) \<and> documents l1 = documents l @ [?d]) \<and>
              (\<forall>e ga. crawl_body env base_domain recursive (Some lang) u l g = (Inl e, ga) \<longrightarrow>
                 recursive \<and> e = ValueError \<and> (\<exists>href. urljoin env u href = None))"
    if sc: "u \<notin> visited l \<and> in_scope env base_domain u"
  proof (intro conjI allI impI)
    fix l1 ga
    assume b: "crawl_body env base_domain recursive (Some lang) u l g = (Inr l1, ga)"
    from sc have s: "u \<notin> visited l" "in_scope env base_domain u" by auto
    from crawl_body_visited_documents(1)[OF b s]
    show "visited l1 = insert u (visited l)" .
    from crawl_body_visited_documents(2)[OF b s] p
    show "documents l1 = documents l @ [?d]" by simp
  next
    fix e ga
    assume b: "crawl_body env base_domain recursive (Some lang) u l g = (Inl e, ga)"
    from sc have n: "urlparse_netloc env u \<noteq> None" by (simp add: in_scope_def)
    from crawl_body_Inl[OF b] n
    show "recursive" "e = ValueError" "\<exists>href. urljoin env u href = None" by auto
  qed
  show "\<exists>d. fst (process_url env u (Some lang) g) = Some d \<and>
           doc_text d = soup_get_text env content \<and> doc_url d = Some u \<and>
           (u \<notin> visited l \<and> in_scope env base_domain u \<longrightarrow>
              (\<forall>l1 ga. crawl_body env base_domain recursive (Some lang) u l g = (Inr l1, ga) \<longrightarrow>
                 visited l1 = insert u (visited l) \<and> documents l1 = documents l @ [d]) \<and>
              (\<forall>e ga. crawl_body env base_domain recursive (Some lang) u l g = (Inl e, ga) \<longrightarrow>
                 recursive \<and> e = ValueError \<and> (\<exists>href. urljoin env u href = None)))"
  proof (intro exI[of _ ?d] conjI)
    show "fst (process_url env u (Some lang) g) = Some ?d" by (rule p)
    show "doc_text ?d = soup_get_text env content" by simp
    show "doc_url ?d = Some u" by simp
    show "u \<notin> visited l \<and> in_scope env base_domain u \<longrightarrow>
              (\<forall>l1 ga. crawl_body env base_domain recursive (Some lang) u l g = (Inr l1, ga) \<longrightarrow>
                 visited l1 = insert u (visited l) \<and> documents l1 = documents l @ [?d]) \<and>
              (\<forall>e ga. crawl_body env base_domain recursive (Some lang) u l g = (Inl e, ga) \<longrightarrow>
                 recursive \<and> e = ValueError \<and> (\<exists>href. urljoin env u href = None))"
      by (rule impI) (rule body)
  qed
next
  assume a: "(\<forall>p ga. translation_fails env p lang ga) \<and>
    crawl_and_scrape env urls recursive (Some lang) g = Some (Inr docs, g1)"
  show "\<forall>d\<in>set docs. \<exists>v wa c wb. doc_url d = Some v \<and> requests_get env v wa = (Some c, wb) \<and>
                        doc_text d = soup_get_text env c"
  proof
    fix d assume d: "d \<in> set docs"
    from a have f: "\<And>p ga. translation_fails env p lang ga"
      and run: "crawl_and_scrape env urls recursive (Some lang) g = Some (Inr docs, g1)"
      by simp_all
    from crawl_and_scrape_documents[OF run d]
    obtain v ga where pu: "fst (process_url env v (Some lang) ga) = Some d" by blast
    from process_url_untranslated[OF f pu]
    show "\<exists>v wa c wb. doc_url d = Some v \<and> requests_get env v wa = (Some c, wb) \<and>
                        doc_text d = soup_get_text env c"
      by blast
  qed
next
  assume "crawl_and_scrape env urls recursive (Some lang) g = Some (Inl err, g2)"
  then show "(err = IndexError \<and> urls = []) \<or> (err = TypeError \<and> None \<in> set urls) \<or>
      (err = ValueError \<and>
         ((\<exists>v. urlparse_netloc env v = None) \<or>
          (recursive \<and> (\<exists>v href. urljoin env v href = None))))"
    by (rule crawl_and_scrape_raises)
next
  show "\<exists>res g3. crawl_and_scrape env urls False (Some lang) g = Some (res, g3)"
    by (rule crawl_and_scrape_nonrecursive_terminates)
next
  assume a: "finite U \<and> set urls \<subseteq> Some ` U \<and> urls \<noteq> [] \<and>
    (\<forall>v wa. fst (requests_get env v wa) = web v) \<and>
    (\<forall>v\<in>U. urlparse_netloc env v \<noteq> None) \<and>
    (\<forall>v\<in>U. \<forall>c href. web v = Some c \<and> href \<in> set (soup_hrefs env c) \<longrightarrow>
              (\<exists>x\<in>U. urljoin env v href = Some x))"
  from a have static: "\<And>v wa. fst (requests_get env v wa) = web v" by blast
  from a have fin: "finite U" and seeds: "set urls \<subseteq> Some ` U" and ne: "urls \<noteq> []"
    by blast+
  from a have parse: "\<And>v. v \<in> U \<Longrightarrow> urlparse_netloc env v \<noteq> None" by blast
  from a have closed: "\<And>v c href. v \<in> U \<Longrightarrow> web v = Some c \<Longrightarrow>
                         href \<in> set (soup_hrefs env c) \<Longrightarrow> \<exists>x\<in>U. urljoin env v href = Some x"
    by blast
  show "\<exists>ds g4. crawl_and_scrape env urls recursive (Some lang) g = Some (Inr ds, g4)"
    by (rule crawl_and_scrape_returns_on_finite_web[OF static fin seeds ne parse closed])
qed

theorem translation_failure_keeps_text_witness:
  "fst (translate_text demo ''docs-home'' ''en'' g0) = ''docs-home'' \<and>
   fst (translate_text demo_quota ''docs-home'' ''en'' g0) = ''docs-home'' \<and>
   (\<exists>d l1 ga.
      fst (process_url demo_quota ''https://example.com/docs'' (Some ''en'') g0) = Some d \<and>
      doc_text d = ''docs-home'' \<and> doc_url d = Some ''https://example.com/docs'' \<and>
      crawl_body demo_quota ''example.com'' True (Some ''en'') ''https://example.com/docs'' l0 g0 =
        (Inr l1, ga) \<and>
      visited l1 = {''https://example.com/docs''} \<and> documents l1 = [d]) \<and>
   crawl_and_scrape demo_quota [Some ''https://example.com/docs''] True (Some ''en'') g0 =
     Some (Inr demo_docs, \<lparr>world = (), translate_client = Some Client, trace = demo_trace\<rparr>) \<and>
   (\<exists>v wa c wb.
      doc_url (Document ''page-a'' ''https://example.com/docs/a'') = Some v \<and>
      requests_get demo_quota v wa = (Some c, wb) \<and>
      doc_text (Document ''page-a'' ''https://example.com/docs/a'') = soup_get_text demo_quota c) \<and>
   crawl_and_scrape demo_quota [Some ''https://example.com/docs'', Some ''http://[::1''] True
       (Some ''en'') g0 =
     Some (Inl ValueError,
           \<lparr>world = (), translate_client = Some Client,
              trace = [ContentGet ''https://example.com/docs'',
                       LinksGet ''https://example.com/docs'']\<rparr>) \<and>
   urlparse_netloc demo_quota ''http://[::1'' = None \<and>
   (\<exists>ds g4. crawl_and_scrape demo [Some ''https://example.com/docs''] True (Some ''en'') g0 =
              Some (Inr ds, g4))"
proof -
  have f1: "translation_fails demo ''docs-home'' ''en'' g0"
    by (simp add: translation_fails_def demo_def g0_def)
  have f2: "translation_fails demo_quota ''docs-home'' ''en'' g0"
    by (simp add: translation_fails_def demo_quota_def demo_def g0_def)
  have fall: "\<forall>p ga. translation_fails demo_quota p ''en'' ga"
    by (simp add: translation_fails_def demo_quota_def demo_def split: option.splits)
  have get: "requests_get demo_quota ''https://example.com/docs'' (world g0) = (Some ''docs-home'', ())"
    by (simp add: requests_get_def raise_for_status_def demo_quota_def demo_def demo_http_def)
  have gt: "soup_get_text demo_quota ''docs-home'' = ''docs-home''"
    by (simp add: demo_quota_def demo_def)
  have f3: "translation_fails demo_quota (soup_get_text demo_quota ''docs-home'') ''en''
              (g0\<lparr>world := (), trace := trace g0 @ [ContentGet ''https://example.com/docs'']\<rparr>)"
    using fall by blast
  have sc: "''https://example.com/docs'' \<notin> visited l0 \<and>
            in_scope demo_quota ''example.com'' ''https://example.com/docs''"
    by code_simp
  have cb: "crawl_body demo_quota ''example.com'' True (Some ''en'') ''https://example.com/docs'' l0 g0 =
     (Inr \<lparr>visited = {''https://example.com/docs''},
           documents = [Document ''docs-home'' ''https://example.com/docs''],
           queue = [Some ''https://example.com/docs/a'', Some ''https://other.com/x'',
                    Some ''https://example.com/login'', Some ''https://example.com/docs/missing'']\<rparr>,
      \<lparr>world = (), translate_client = Some Client,
         trace = [ContentGet ''https://example.com/docs'', LinksGet ''https://example.com/docs'']\<rparr>)"
    by code_simp
  have run: "crawl_and_scrape demo_quota [Some ''https://example.com/docs''] True (Some ''en'') g0 =
     Some (Inr demo_docs, \<lparr>world = (), translate_client = Some Client, trace = demo_trace\<rparr>)"
    by code_simp
  have abort: "crawl_and_scrape demo_quota [Some ''https://example.com/docs'', Some ''http://[::1''] True
       (Some ''en'') g0 =
     Some (Inl ValueError,
           \<lparr>world = (), translate_client = Some Client,
              trace = [ContentGet ''https://example.com/docs'',
                       LinksGet ''https://example.com/docs'']\<rparr>)"
    by code_simp
  have np: "urlparse_netloc demo_quota ''http://[::1'' = None" by code_simp
  note t = translation_failure_keeps_text
  from t[where env = demo and page_text = "''docs-home''" and lang = "''en''" and g = g0,
         THEN conjunct1] f1
  have 1: "fst (translate_text demo ''docs-home'' ''en'' g0) = ''docs-home''" by (rule mp)
  from t[where env = demo_quota and page_text = "''docs-home''" and lang = "''en''" and g = g0,
         THEN conjunct1] f2
  have 2: "fst (translate_text demo_quota ''docs-home'' ''en'' g0) = ''docs-home''" by (rule mp)
  from t[where env = demo_quota and lang = "''en''" and g = g0
           and u = "''https://example.com/docs''" and content = "''docs-home''" and w = "()"
           and l = l0 and base_domain = "''example.com''" and recursive = True,
         THEN conjunct2, THEN conjunct1] get f3
  obtain d where d: "fst (process_url demo_quota ''https://example.com/docs'' (Some ''en'') g0) = Some d"
      "doc_text d = soup_get_text demo_quota ''docs-home''"
      "doc_url d = Some ''https://example.com/docs''"
      "''https://example.com/docs'' \<notin> visited l0 \<and>
         in_scope demo_quota ''example.com'' ''https://example.com/docs'' \<longrightarrow>
       (\<forall>l1 ga. crawl_body demo_quota ''example.com'' True (Some ''en'')
                   ''https://example.com/docs'' l0 g0 = (Inr l1, ga) \<longrightarrow>
          visited l1 = insert ''https://example.com/docs'' (visited l0) \<and>
          documents l1 = documents l0 @ [d]) \<and>
       (\<forall>e ga. crawl_body demo_quota ''example.com'' True (Some ''en'')
                  ''https://example.com/docs'' l0 g0 = (Inl e, ga) \<longrightarrow>
          True \<and> e = ValueError \<and> (\<exists>href. urljoin demo_quota ''https://example.com/docs'' href = None))"
    by auto
  from d(4) sc cb
  have b: "visited \<lparr>visited = {''https://example.com/docs''},
           documents = [Document ''docs-home'' ''https://example.com/docs''],
           queue = [Some ''https://example.com/docs/a'', Some ''https://other.com/x'',
                    Some ''https://example.com/login'', Some ''https://example.com/docs/missing'']\<rparr> =
             insert ''https://example.com/docs'' (visited l0) \<and>
           documents \<lparr>visited = {''https://example.com/docs''},
           documents = [Document ''docs-home'' ''https://example.com/docs''],
           queue = [Some ''https://example.com/docs/a'', Some ''https://other.com/x'',
                    Some ''https://example.com/login'', Some ''https://example.com/docs/missing'']\<rparr> =
             documents l0 @ [d]"
    by blast
  then have dd: "d = Document ''docs-home'' ''https://example.com/docs''"
    by (simp add: l0_def)
  have 3: "\<exists>d l1 ga.
      fst (process_url demo_quota ''https://example.com/docs'' (Some ''en'') g0) = Some d \<and>
      doc_text d = ''docs-home'' \<and> doc_url d = Some ''https://example.com/docs'' \<and>
      crawl_body demo_quota ''example.com'' True (Some ''en'') ''https://example.com/docs'' l0 g0 =
        (Inr l1, ga) \<and>
      visited l1 = {''https://example.com/docs''} \<and> documents l1 = [d]"
    using d(1,2,3) cb dd gt
    by (intro exI[of _ d] exI[of _ "\<lparr>visited = {''https://example.com/docs''},
           documents = [Document ''docs-home'' ''https://example.com/docs''],
           queue = [Some ''https://example.com/docs/a'', Some ''https://other.com/x'',
                    Some ''https://example.com/login'', Some ''https://example.com/docs/missing'']\<rparr>"]
          exI[of _ "\<lparr>world = (), translate_client = Some Client,
         trace = [ContentGet ''https://example.com/docs'', LinksGet ''https://example.com/docs'']\<rparr>"])
       simp
  have mem: "Document ''page-a'' ''https://example.com/docs/a'' \<in> set demo_docs"
    by (simp add: demo_docs_def)
  from t[where env = demo_quota and lang = "''en''" and g = g0
           and urls = "[Some ''https://example.com/docs'']" and recursive = True
           and docs = demo_docs
           and ?g1.0 = "\<lparr>world = (), translate_client = Some Client, trace = demo_trace\<rparr>",
         THEN conjunct2, THEN conjunct2, THEN conjunct1] fall run
  have "\<forall>d\<in>set demo_docs. \<exists>v wa c wb. doc_url d = Some v \<and>
          requests_get demo_quota v wa = (Some c, wb) \<and> doc_text d = soup_get_text demo_quota c"
    by blast
  with mem have 4: "\<exists>v wa c wb.
      doc_url (Document ''page-a'' ''https://example.com/docs/a'') = Some v \<and>
      requests_get demo_quota v wa = (Some c, wb) \<and>
      doc_text (Document ''page-a'' ''https://example.com/docs/a'') = soup_get_text demo_quota c"
    by (rule bspec[rotated])
  have h1: "finite demo_urls" by (simp add: demo_urls_def)
  have h2: "set [Some ''https://example.com/docs''] \<subseteq> Some ` demo_urls"
    by (simp add: demo_urls_def)
  have h3: "[Some ''https://example.com/docs''] \<noteq> []" by simp
  have h4: "\<forall>v wa. fst (requests_get demo v wa) = demo_web v" by (simp add: demo_static)
  have h5: "\<forall>v\<in>demo_urls. urlparse_netloc demo v \<noteq> None" using demo_urls_parse by blast
  have h6: "\<forall>v\<in>demo_urls. \<forall>c href. demo_web v = Some c \<and> href \<in> set (soup_hrefs demo c) \<longrightarrow>
              (\<exists>x\<in>demo_urls. urljoin demo v href = Some x)"
    using demo_urls_closed by blast
  have 5: "\<exists>ds g4. crawl_and_scrape demo [Some ''https://example.com/docs''] True (Some ''en'') g0 =
              Some (Inr ds, g4)"
    by (rule t[where env = demo and lang = "''en''" and g = g0
                 and urls = "[Some ''https://example.com/docs'']" and recursive = True
                 and U = demo_urls and web = demo_web,
               THEN conjunct2, THEN conjunct2, THEN conjunct2, THEN conjunct2, THEN conjunct2,
               THEN mp])
       (intro conjI h1 h2 h3 h4 h5 h6)
  from 1 2 3 run 4 abort np 5 show ?thesis by (intro conjI)
qed




text \<open>
  C5 as stated does not hold: a URL that cannot be parsed is not always skipped, it can
  end the crawl. The filter calls \<^verbatim>\<open>urlparse\<close> outside any handler, so the
  \<^verbatim>\<open>ValueError\<close> it raises on such a URL leaves \<^verbatim>\<open>crawl_and_scrape\<close>: on the
  small site, a crawl of \<^verbatim>\<open>/docs\<close> and \<^verbatim>\<open>http://[::1\<close> ends with the error
  after the first page.
\<close>

theorem unparseable_url_aborts_counterexample:
  "\<not> ignored ''http://[::1'' \<and> urlparse_netloc demo ''http://[::1'' = None \<and>
   crawl_and_scrape demo [Some ''https://example.com/docs'', Some ''http://[::1''] False None g0 =
     Some (Inl ValueError, g0\<lparr>trace := [ContentGet ''https://example.com/docs'']\<rparr>)"
  by code_simp

text \<open>
  C5, amended. For a dequeued URL that is not visited and contains no ignore
  pattern: when \<^verbatim>\<open>urlparse\<close> gives a host other than the base domain (the empty
  host of a string that is no absolute URL included), the URL is skipped without a request
  and the loop goes on; when \<^verbatim>\<open>urlparse\<close> raises, the loop ends with that
  \<^verbatim>\<open>ValueError\<close>.
\<close>

theorem dequeue_filter_host:
  assumes "u \<notin> visited l" and "\<not> ignored u"
  shows "(\<forall>d. urlparse_netloc env u = Some d \<and> d \<noteq> base_domain \<longrightarrow>
            crawl_body env base_domain recursive translate_to u (l\<lparr>queue := rest\<rparr>) g =
              (Inr (l\<lparr>queue := rest\<rparr>), g) \<and>
            crawl_loop env base_domain recursive translate_to (l\<lparr>queue := Some u # rest\<rparr>) g =
              crawl_loop env base_domain recursive translate_to (l\<lparr>queue := rest\<rparr>) g) \<and>
         (urlparse_netloc env u = None \<longrightarrow>
            crawl_body env base_domain recursive translate_to u (l\<lparr>queue := rest\<rparr>) g =
              (Inl ValueError, g) \<and>
            crawl_loop env base_domain recursive translate_to (l\<lparr>queue := Some u # rest\<rparr>) g =
              Some (Inl ValueError, g))"
proof (intro conjI allI impI)
  fix d assume "urlparse_netloc env u = Some d \<and> d \<noteq> base_domain"
  then show b: "crawl_body env base_domain recursive translate_to u (l\<lparr>queue := rest\<rparr>) g =
                  (Inr (l\<lparr>queue := rest\<rparr>), g)"
    by (intro crawl_body_skip) auto
  then show "crawl_loop env base_domain recursive translate_to (l\<lparr>queue := Some u # rest\<rparr>) g =
              crawl_loop env base_domain recursive translate_to (l\<lparr>queue := rest\<rparr>) g"
    by (intro crawl_loop_Cons_Inr[where cur = u and rest = rest]) auto
next
  assume n: "urlparse_netloc env u = None"
  with assms show b: "crawl_body env base_domain recursive translate_to u (l\<lparr>queue := rest\<rparr>) g =
                        (Inl ValueError, g)"
    by (intro crawl_body_parse_error) auto
  then show "crawl_loop env base_domain recursive translate_to (l\<lparr>queue := Some u # rest\<rparr>) g =
              Some (Inl ValueError, g)"
    by (intro crawl_loop_Cons_Inl[where cur = u and rest = rest]) auto
qed

theorem dequeue_filter_host_witness:
  "crawl_body demo ''example.com'' True None ''https://other.com/x''
     (l0\<lparr>queue := [Some ''https://example.com/docs'']\<rparr>) g0 =
     (Inr (l0\<lparr>queue := [Some ''https://example.com/docs'']\<rparr>), g0) \<and>
   crawl_loop demo ''example.com'' True None (l0\<lparr>queue := [Some ''http://[::1'', Some ''https://example.com/docs'']\<rparr>) g0 =
     Some (Inl ValueError, g0)"
proof -
  have nv: "''https://other.com/x'' \<notin> visited l0" "''http://[::1'' \<notin> visited l0"
    by (simp_all add: l0_def)
  have ni: "\<not> ignored ''https://other.com/x''" "\<not> ignored ''http://[::1''" by code_simp+
  have h: "urlparse_netloc demo ''https://other.com/x'' = Some ''other.com'' \<and> ''other.com'' \<noteq> ''example.com''"
    by code_simp
  have n: "urlparse_netloc demo ''http://[::1'' = None" by code_simp
  from dequeue_filter_host[OF nv(1) ni(1), of demo "''example.com''" True None "[Some ''https://example.com/docs'']" g0] h
  have 1: "crawl_body demo ''example.com'' True None ''https://other.com/x''
     (l0\<lparr>queue := [Some ''https://example.com/docs'']\<rparr>) g0 =
     (Inr (l0\<lparr>queue := [Some ''https://example.com/docs'']\<rparr>), g0)" by blast
  from dequeue_filter_host[OF nv(2) ni(2), of demo "''example.com''" True None "[Some ''https://example.com/docs'']" g0] n
  have 2: "crawl_loop demo ''example.com'' True None (l0\<lparr>queue := [Some ''http://[::1'', Some ''https://example.com/docs'']\<rparr>) g0 =
     Some (Inl ValueError, g0)" by blast
  from 1 2 show ?thesis by blast
qed

text \<open>
  C1. With a non-empty sitemap, \<^verbatim>\<open>load_documents_from_sources\<close> does not switch link
  following off: it passes \<^verbatim>\<open>args.recursive\<close> to \<^verbatim>\<open>crawl_and_scrape\<close> whatever
  \<^verbatim>\<open>fetch_sitemap_urls\<close> returned. On the small site with a sitemap that lists
  \<^verbatim>\<open>/docs\<close> only and the flag set, the crawl harvests the links of \<^verbatim>\<open>/docs\<close>,
  fetches \<^verbatim>\<open>/docs/a\<close>, which the sitemap does not list, and returns a document for
  it. On the same site, \<^verbatim>\<open>load_api_reference_documents\<close>, which passes
  \<^verbatim>\<open>recursive=not sitemap_urls\<close>, fetches \<^verbatim>\<open>/docs\<close> only and harvests no
  links.
\<close>

theorem sitemap_with_recursive_flag_follows_links:
  "fetch_sitemap_urls demo_sitemap ''https://example.com/docs'' g0 =
     (Inr [Some ''https://example.com/docs''],
      g0\<lparr>trace := [SitemapGet ''https://example.com/sitemap.xml'']\<rparr>) \<and>
   args_recursive (demo_args True) \<and>
   load_documents_from_sources demo_sitemap (demo_args True) g0 =
     Some (Inr [Document ''docs-home'' ''https://example.com/docs'',
                Document ''page-a'' ''https://example.com/docs/a''],
           g0\<lparr>trace := [SitemapGet ''https://example.com/sitemap.xml'',
                         ContentGet ''https://example.com/docs'',
                         LinksGet ''https://example.com/docs'',
                         ContentGet ''https://example.com/docs/a'',
                         LinksGet ''https://example.com/docs/a'',
                         ContentGet ''https://example.com/docs/missing'',
                         LinksGet ''https://example.com/docs/missing'']\<rparr>) \<and>
   Some ''https://example.com/docs/a'' \<notin> set [Some ''https://example.com/docs''] \<and>
   load_api_reference_documents demo_sitemap ''https://example.com/docs'' g0 =
     Some ([Document ''docs-home'' ''https://example.com/docs''],
           g0\<lparr>trace := [SitemapGet ''https://example.com/sitemap.xml'',
                         ContentGet ''https://example.com/docs'']\<rparr>)"
  by code_simp

text \<open>
  C9 as stated does not hold: a sitemap response with a status outside 2xx does not always
  give the empty list. \<^verbatim>\<open>fetch_sitemap_urls\<close> relies on
  \<^verbatim>\<open>raise_for_status\<close>, which raises for the statuses 400 to 599 only: on the small
  site whose sitemap is served with status 300, the body is parsed and the function returns
  the URLs it lists.
\<close>

theorem sitemap_with_status_300_counterexample:
  "http_get demo_sitemap_300 ''https://example.com/sitemap.xml'' (world g0) =
     (Response 300 ''sitemap-xml'', ()) \<and>
   \<not> (200 \<le> (300::nat) \<and> (300::nat) < 300) \<and>
   fetch_sitemap_urls demo_sitemap_300 ''https://example.com/docs'' g0 =
     (Inr [Some ''https://example.com/docs''],
      g0\<lparr>trace := [SitemapGet ''https://example.com/sitemap.xml'']\<rparr>)"
  by code_simp

text \<open>
  C9, amended. When the sitemap fetch fails (\<^verbatim>\<open>requests.get\<close> raises, or the
  response has a status from 400 to 599), or the body of the response makes the parser raise
  \<^verbatim>\<open>ET.ParseError\<close>, \<^verbatim>\<open>fetch_sitemap_urls\<close> returns the empty list and raises
  nothing. Both callers then crawl the seeds they were given:
  \<^verbatim>\<open>load_api_reference_documents\<close> crawls the given URL with link following, and
  \<^verbatim>\<open>load_documents_from_sources\<close> crawls \<^verbatim>\<open>args.urls\<close>.
\<close>

theorem sitemap_failure_falls_back_to_seeds:
  assumes j: "urljoin env u ''sitemap.xml'' = Some sitemap_url"
    and bad: "fetch_fails env sitemap_url (world g) \<or>
              (\<exists>status content. fst (http_get env sitemap_url (world g)) = Response status content \<and>
                 sitemap_locs env content = ParseError)"
    and g1: "g1 = g\<lparr>world := snd (http_get env sitemap_url (world g)),
                     trace := trace g @ [SitemapGet sitemap_url]\<rparr>"
  shows "fetch_sitemap_urls env u g = (Inr [], g1) \<and>
         load_api_reference_documents env u g =
           (case crawl_and_scrape env [Some u] True None g1 of
              None \<Rightarrow> None
            | Some (Inl e, g2) \<Rightarrow> Some ([], g2)
            | Some (Inr docs, g2) \<Rightarrow> Some (docs, g2)) \<and>
         (args_urls a = u # others \<longrightarrow>
            (\<exists>recursive.
               load_documents_from_sources env a g =
                 (case crawl_and_scrape env (map Some (args_urls a)) recursive
                         (args_translate_to a) g1 of
                    None \<Rightarrow> None
                  | Some (Inl e, g2) \<Rightarrow> Some (Inl e, g2)
                  | Some (Inr docs, g2) \<Rightarrow> Some (load_pdfs env a docs g2))))"
proof -
  obtain resp w where h: "http_get env sitemap_url (world g) = (resp, w)"
    by (cases "http_get env sitemap_url (world g)")
  have f: "fetch_sitemap_urls env u g = (Inr [], g1)"
  proof (cases resp)
    case RequestException
    with j h g1 show ?thesis
      by (simp add: fetch_sitemap_urls_def requests_get_def)
  next
    case (Response status content)
    show ?thesis
    proof (cases "raise_for_status status")
      case True
      with j h g1 Response show ?thesis
        by (simp add: fetch_sitemap_urls_def requests_get_def)
    next
      case False
      with bad h Response have "sitemap_locs env content = ParseError"
        by (auto simp: fetch_fails_def raise_for_status_def)
      with j h g1 Response False show ?thesis
        by (simp add: fetch_sitemap_urls_def requests_get_def)
    qed
  qed
  have "load_documents_from_sources env a g =
          (case crawl_and_scrape env (map Some (args_urls a)) (args_recursive a)
                  (args_translate_to a) g1 of
             None \<Rightarrow> None
           | Some (Inl e, g2) \<Rightarrow> Some (Inl e, g2)
           | Some (Inr docs, g2) \<Rightarrow> Some (load_pdfs env a docs g2))"
    if "args_urls a = u # others"
    using that f by (simp add: load_documents_from_sources_def load_urls_def)
  then have "args_urls a = u # others \<longrightarrow>
            (\<exists>recursive.
               load_documents_from_sources env a g =
                 (case crawl_and_scrape env (map Some (args_urls a)) recursive
                         (args_translate_to a) g1 of
                    None \<Rightarrow> None
                  | Some (Inl e, g2) \<Rightarrow> Some (Inl e, g2)
                  | Some (Inr docs, g2) \<Rightarrow> Some (load_pdfs env a docs g2)))"
    by blast
  moreover from f have "load_api_reference_documents env u g =
           (case crawl_and_scrape env [Some u] True None g1 of
              None \<Rightarrow> None
            | Some (Inl e, g2) \<Rightarrow> Some ([], g2)
            | Some (Inr docs, g2) \<Rightarrow> Some (docs, g2))"
    by (simp add: load_api_reference_documents_def)
  ultimately show ?thesis using f by blast
qed

theorem sitemap_failure_falls_back_to_seeds_witness:
  "fetch_fails demo ''https://example.com/sitemap.xml'' (world g0) \<and>
   fetch_sitemap_urls demo ''https://example.com/docs'' g0 =
     (Inr [], g0\<lparr>trace := [SitemapGet ''https://example.com/sitemap.xml'']\<rparr>) \<and>
   load_api_reference_documents demo ''https://example.com/docs'' g0 =
     Some (demo_docs, g0\<lparr>trace := SitemapGet ''https://example.com/sitemap.xml'' # demo_trace\<rparr>) \<and>
   (\<exists>recursive.
      load_documents_from_sources demo (demo_args True) g0 =
        (case crawl_and_scrape demo [Some ''https://example.com/docs''] recursive None
                (g0\<lparr>trace := [SitemapGet ''https://example.com/sitemap.xml'']\<rparr>) of
           None \<Rightarrow> None
         | Some (Inl e, g2) \<Rightarrow> Some (Inl e, g2)
         | Some (Inr docs, g2) \<Rightarrow> Some (load_pdfs demo (demo_args True) docs g2))) \<and>
   sitemap_locs demo_soft404 ''not-found-page'' = ParseError \<and>
   fetch_sitemap_urls demo_soft404 ''https://example.com/docs'' g0 =
     (Inr [], g0\<lparr>trace := [SitemapGet ''https://example.com/sitemap.xml'']\<rparr>)"
proof -
  let ?s = "''https://example.com/sitemap.xml''"
  let ?g1 = "g0\<lparr>trace := [SitemapGet ?s]\<rparr>"
  have j: "urljoin demo ''https://example.com/docs'' ''sitemap.xml'' = Some ?s" by code_simp
  have ff: "fetch_fails demo ?s (world g0)"
    by (simp add: fetch_fails_def demo_def demo_http_def)
  then have bad: "fetch_fails demo ?s (world g0) \<or>
              (\<exists>status content. fst (http_get demo ?s (world g0)) = Response status content \<and>
                 sitemap_locs demo content = ParseError)" ..
  have g1: "?g1 = g0\<lparr>world := snd (http_get demo ?s (world g0)), trace := trace g0 @ [SitemapGet ?s]\<rparr>"
    by (simp add: g0_def)
  have run: "crawl_and_scrape demo [Some ''https://example.com/docs''] True None ?g1 =
             Some (Inr demo_docs, g0\<lparr>trace := SitemapGet ?s # demo_trace\<rparr>)"
    by code_simp
  have a: "args_urls (demo_args True) = ''https://example.com/docs'' # []"
    by (simp add: demo_args_def)
  have tr: "args_translate_to (demo_args True) = None"
    by (simp add: demo_args_def)
  note t = sitemap_failure_falls_back_to_seeds[OF j bad g1, of "demo_args True" "[]"]
  from t have 1: "fetch_sitemap_urls demo ''https://example.com/docs'' g0 = (Inr [], ?g1)"
    by (rule conjunct1)
  from t run have 2: "load_api_reference_documents demo ''https://example.com/docs'' g0 =
     Some (demo_docs, g0\<lparr>trace := SitemapGet ?s # demo_trace\<rparr>)"
    by simp
  from t a have 3: "\<exists>recursive.
      load_documents_from_sources demo (demo_args True) g0 =
        (case crawl_and_scrape demo [Some ''https://example.com/docs''] recursive None ?g1 of
           None \<Rightarrow> None
         | Some (Inl e, g2) \<Rightarrow> Some (Inl e, g2)
         | Some (Inr docs, g2) \<Rightarrow> Some (load_pdfs demo (demo_args True) docs g2))"
    by (simp add: tr)
  have j2: "urljoin demo_soft404 ''https://example.com/docs'' ''sitemap.xml'' = Some ?s" by code_simp
  have pe: "sitemap_locs demo_soft404 ''not-found-page'' = ParseError" by code_simp
  have h2: "fst (http_get demo_soft404 ?s (world g0)) = Response 200 ''not-found-page''"
    by (simp add: demo_soft404_def)
  with pe have bad2: "fetch_fails demo_soft404 ?s (world g0) \<or>
              (\<exists>status content. fst (http_get demo_soft404 ?s (world g0)) = Response status content \<and>
                 sitemap_locs demo_soft404 content = ParseError)" by blast
  have g2: "?g1 = g0\<lparr>world := snd (http_get demo_soft404 ?s (world g0)),
                      trace := trace g0 @ [SitemapGet ?s]\<rparr>"
    by (simp add: g0_def)
  from sitemap_failure_falls_back_to_seeds[OF j2 bad2 g2]
  have 4: "fetch_sitemap_urls demo_soft404 ''https://example.com/docs'' g0 = (Inr [], ?g1)"
    by (rule conjunct1)
  from ff 1 2 3 pe 4 show ?thesis by (intro conjI)
qed

text \<open>
  C4. Take a web that answers every request for a URL in the same way, and a finite set of
  URLs that contains the seeds and the resolved links of each of its in-scope pages, on
  which \<^verbatim>\<open>urlparse\<close> and \<^verbatim>\<open>urljoin\<close> do not raise. Then
  \<^verbatim>\<open>crawl_and_scrape\<close>, given at least one seed, returns (the loop leaves only with
  an empty queue), cyclic links or not, and the number of documents is the number of pages
  that are reachable from the seeds through in-scope pages, in scope, and fetched with
  success; each of these pages has exactly one document. Without link following the
  reachable pages are the seeds.
\<close>

theorem crawl_terminates_with_reachable_pages:
  fixes env :: "'w env" and U :: "string set"
  assumes static: "\<And>u w. fst (requests_get env u w) = web u"
    and fin: "finite U" and seeds: "set urls \<subseteq> U"
    and first: "urls = first_url # others"
    and base: "urlparse_netloc env first_url = Some base_domain"
    and parse: "\<And>u. u \<in> U \<Longrightarrow> urlparse_netloc env u \<noteq> None"
    and closed: "\<And>u content href. u \<in> U \<Longrightarrow> in_scope env base_domain u \<Longrightarrow>
                   web u = Some content \<Longrightarrow> href \<in> set (soup_hrefs env content) \<Longrightarrow>
                   \<exists>v\<in>U. urljoin env u href = Some v"
  shows "\<exists>docs g1. crawl_and_scrape env (map Some urls) recursive translate_to g = Some (Inr docs, g1) \<and>
           distinct (map doc_url docs) \<and>
           set (map doc_url docs) =
             Some ` {u \<in> crawl_reach env web base_domain recursive urls.
                       in_scope env base_domain u \<and> web u \<noteq> None} \<and>
           length docs =
             card {u \<in> crawl_reach env web base_domain recursive urls.
                     in_scope env base_domain u \<and> web u \<noteq> None}"
proof -
  let ?l0 = "\<lparr>visited = {}, documents = [], queue = map Some urls\<rparr>"
  let ?pages = "{u \<in> crawl_reach env web base_domain recursive urls.
                   in_scope env base_domain u \<and> web u \<noteq> None}"
  have "\<exists>docs g1. crawl_loop env base_domain recursive translate_to ?l0 g = Some (Inr docs, g1)"
  proof (rule crawl_loop_terminates[where web = web and U = U])
    show "fst (requests_get env u w) = web u" for u w by (rule static)
    show "finite U" by (rule fin)
    show "urlparse_netloc env u \<noteq> None" if "u \<in> U" for u using that by (rule parse)
    show "\<exists>v\<in>U. urljoin env u href = Some v"
      if "u \<in> U" "in_scope env base_domain u" "web u = Some content"
        "href \<in> set (soup_hrefs env content)" for u content href
      using that by (rule closed)
    show "visited ?l0 \<subseteq> U" by simp
    show "set (queue ?l0) \<subseteq> Some ` U" using seeds by auto
  qed
  then obtain docs g1 where
    loop: "crawl_loop env base_domain recursive translate_to ?l0 g = Some (Inr docs, g1)"
    by blast
  from crawl_loop_reach[OF static loop]
  have d: "distinct (map doc_url docs)" and s: "set (map doc_url docs) = Some ` ?pages"
    by simp_all
  have "length docs = card (set (map doc_url docs))"
    using distinct_card[OF d] by simp
  also have "\<dots> = card ?pages" unfolding s by (simp add: card_image)
  finally have "length docs = card ?pages" .
  moreover from loop first base
  have "crawl_and_scrape env (map Some urls) recursive translate_to g = Some (Inr docs, g1)"
    by (simp add: crawl_and_scrape_def)
  ultimately show ?thesis using d s by blast
qed

theorem crawl_terminates_with_reachable_pages_witness:
  "crawl_and_scrape demo (map Some [''https://example.com/docs'']) True None g0 =
     Some (Inr demo_docs, g0\<lparr>trace := demo_trace\<rparr>) \<and>
   card {u \<in> crawl_reach demo demo_web ''example.com'' True [''https://example.com/docs''].
           in_scope demo ''example.com'' u \<and> demo_web u \<noteq> None} = 2"
proof -
  have static: "fst (requests_get demo u w) = demo_web u" for u w
    by (simp add: requests_get_def raise_for_status_def demo_def demo_http_def demo_web_def)
  have fin: "finite demo_urls" by (simp add: demo_urls_def)
  have seeds: "set [''https://example.com/docs''] \<subseteq> demo_urls" by (simp add: demo_urls_def)
  have first: "[''https://example.com/docs''] = ''https://example.com/docs'' # []" by simp
  have base: "urlparse_netloc demo ''https://example.com/docs'' = Some ''example.com''"
    by code_simp
  have parse: "urlparse_netloc demo u \<noteq> None" if "u \<in> demo_urls" for u
    using that by (auto simp: demo_urls_def demo_def demo_netloc_def)
  have closed: "\<exists>v\<in>demo_urls. urljoin demo u href = Some v"
    if "u \<in> demo_urls" "in_scope demo ''example.com'' u" "demo_web u = Some content"
      "href \<in> set (soup_hrefs demo content)" for u content href
    using that(1,3,4)
    by (auto simp: demo_urls_def demo_def demo_web_def demo_hrefs_def demo_urljoin_def
             split: if_splits)
  have "\<exists>docs g1.
          crawl_and_scrape demo (map Some [''https://example.com/docs'']) True None g0 = Some (Inr docs, g1) \<and>
          distinct (map doc_url docs) \<and>
          set (map doc_url docs) =
            Some ` {u \<in> crawl_reach demo demo_web ''example.com'' True [''https://example.com/docs''].
                      in_scope demo ''example.com'' u \<and> demo_web u \<noteq> None} \<and>
          length docs =
            card {u \<in> crawl_reach demo demo_web ''example.com'' True [''https://example.com/docs''].
                    in_scope demo ''example.com'' u \<and> demo_web u \<noteq> None}"
    by (rule crawl_terminates_with_reachable_pages[where U = demo_urls and others = "[]",
          OF static fin seeds first base parse closed])
  then
  obtain docs g1 where
    r: "crawl_and_scrape demo (map Some [''https://example.com/docs'']) True None g0 = Some (Inr docs, g1)"
    and c: "length docs =
       card {u \<in> crawl_reach demo demo_web ''example.com'' True [''https://example.com/docs''].
               in_scope demo ''example.com'' u \<and> demo_web u \<noteq> None}"
    by blast
  from r demo_run have "docs = demo_docs" by simp
  with c have "card {u \<in> crawl_reach demo demo_web ''example.com'' True [''https://example.com/docs''].
                  in_scope demo ''example.com'' u \<and> demo_web u \<noteq> None} = 2"
    by (simp add: demo_docs_def)
  with demo_run show ?thesis by simp
qed

end
